theory Spec2Isabelle
  imports Main
begin

section \<open>Python strings and the Unicode tables the code consults\<close>

text \<open>
  A Python 3 \<open>str\<close> is a sequence of Unicode code points; it is modelled as a list of
  natural numbers. \<open>py\<close> turns an ASCII literal into such a list.
\<close>

type_synonym pystr = "nat list"

definition py :: "string \<Rightarrow> pystr" where
  "py s = map of_char s"

text \<open>
  \<open>util.py\<close> calls into \<open>unicodedata\<close>, \<open>str.lower\<close>, \<open>str.isalnum\<close>,
  \<open>str.isspace\<close> and \<open>unidecode\<close>. Their tables are not part of the repository.
  On the ASCII range (code points below 128) their behaviour is fixed and written out
  below; for every other code point it is a parameter, the record \<open>unicode_db\<close>.
  \<open>ext_lower\<close> receives the whole string and an index, because \<open>str.lower\<close> is
  context sensitive for one letter (final sigma).
\<close>

record unicode_db =
  ext_category :: "nat \<Rightarrow> string"
  ext_lower :: "pystr \<Rightarrow> nat \<Rightarrow> pystr"
  ext_isspace :: "nat \<Rightarrow> bool"
  ext_isalnum :: "nat \<Rightarrow> bool"
  ext_unidecode :: "nat \<Rightarrow> pystr"

definition ascii_category :: "nat \<Rightarrow> string" where
  "ascii_category c =
     (if c < 32 \<or> c = 127 then ''Cc''
      else if c = 32 then ''Zs''
      else if 48 \<le> c \<and> c \<le> 57 then ''Nd''
      else if 65 \<le> c \<and> c \<le> 90 then ''Lu''
      else if 97 \<le> c \<and> c \<le> 122 then ''Ll''
      else if c = 36 then ''Sc''
      else if c = 43 \<or> c = 60 \<or> c = 61 \<or> c = 62 \<or> c = 124 \<or> c = 126 then ''Sm''
      else if c = 94 \<or> c = 96 then ''Sk''
      else if c = 40 \<or> c = 91 \<or> c = 123 then ''Ps''
      else if c = 41 \<or> c = 93 \<or> c = 125 then ''Pe''
      else if c = 45 then ''Pd''
      else if c = 95 then ''Pc''
      else ''Po'')"

definition category :: "unicode_db \<Rightarrow> nat \<Rightarrow> string" where
  "category U c = (if c < 128 then ascii_category c else ext_category U c)"

definition isspace :: "unicode_db \<Rightarrow> nat \<Rightarrow> bool" where
  "isspace U c =
     (if c < 128 then (9 \<le> c \<and> c \<le> 13) \<or> (28 \<le> c \<and> c \<le> 32) else ext_isspace U c)"

definition isalnum :: "unicode_db \<Rightarrow> nat \<Rightarrow> bool" where
  "isalnum U c =
     (if c < 128 then (48 \<le> c \<and> c \<le> 57) \<or> (65 \<le> c \<and> c \<le> 90) \<or> (97 \<le> c \<and> c \<le> 122)
      else ext_isalnum U c)"

definition ascii_lower :: "nat \<Rightarrow> nat" where
  "ascii_lower c = (if 65 \<le> c \<and> c \<le> 90 then c + 32 else c)"

definition lower :: "unicode_db \<Rightarrow> pystr \<Rightarrow> pystr" where
  "lower U s =
     concat (map (\<lambda>i. if s ! i < 128 then [ascii_lower (s ! i)] else ext_lower U s i)
                 [0..<length s])"

definition strip :: "unicode_db \<Rightarrow> pystr \<Rightarrow> pystr" where
  "strip U s = rev (dropWhile (isspace U) (rev (dropWhile (isspace U) s)))"

definition unidecode :: "unicode_db \<Rightarrow> pystr \<Rightarrow> pystr" where
  "unidecode U s = concat (map (\<lambda>c. if c < 128 then [c] else ext_unidecode U c) s)"

text \<open>
  A sample table for closed examples. It holds the entries of three code points:
  U+0130 (capital I with dot above, whose lowercase is \<open>i\<close> followed by the combining
  dot U+0307), U+0307 itself, and U+5317 (a CJK ideograph, transliterated by
  \<open>unidecode\<close> to \<open>Bei\<close> and a space). Every other non-ASCII code point is treated
  as an unassigned one: category \<open>Cn\<close>, unchanged by \<open>lower\<close>, neither alphanumeric
  nor white space, dropped by \<open>unidecode\<close>.
\<close>

definition sample_db :: unicode_db where
  "sample_db =
     \<lparr> ext_category = (\<lambda>c. if c = 304 then ''Lu'' else if c = 775 then ''Mn''
                            else if c = 21271 then ''Lo'' else ''Cn''),
       ext_lower = (\<lambda>s i. if s ! i = 304 then [105, 775] else [s ! i]),
       ext_isspace = (\<lambda>c. False),
       ext_isalnum = (\<lambda>c. c = 304 \<or> c = 21271),
       ext_unidecode = (\<lambda>c. if c = 304 then py ''I'' else if c = 21271 then py ''Bei '' else []) \<rparr>"

definition is_ascii :: "pystr \<Rightarrow> bool" where
  "is_ascii s = list_all (\<lambda>c. c < 128) s"


section \<open>DOI helpers\<close>

datatype error = NoDoiException string

text \<open>
  \<open>remove_nonprinting_characters\<close>: for a \<open>str\<close> argument \<open>to_unicode_or_bust\<close>
  returns it unchanged and \<open>input_was_unicode\<close> stays true, so the function is the filter
  on the first letter of the category. \<open>take 1\<close> is Python's \<open>[0]\<close> on the two-letter
  category name.
\<close>

definition remove_nonprinting_characters :: "unicode_db \<Rightarrow> pystr \<Rightarrow> pystr" where
  "remove_nonprinting_characters U s =
     filter (\<lambda>c. take 1 (category U c) \<notin> set [''C'', ''M'', ''Z'']) s"

text \<open>
  The regular expression \<open>.*?(10.+)\<close> of \<open>clean_doi\<close>. Python's \<open>.\<close> matches any
  character but the newline (code point 10). \<open>doi_group\<close> is the group \<open>(10.+)\<close> tried at
  the head of the string: the characters \<open>1\<close>, \<open>0\<close>, then greedily one or more
  non-newline characters. \<open>doi_match_at\<close> is the whole pattern tried at a fixed start:
  the lazy \<open>.*?\<close> skips as few non-newline characters as possible. \<open>doi_findall_first\<close>
  is \<open>re.findall(p, s)\<close> reduced to what the code reads of it, whether the list is empty
  and its first element: the search tries every start position from the left.
\<close>

definition doi_group :: "pystr \<Rightarrow> pystr option" where
  "doi_group s =
     (case s of
        a # b # d # rest \<Rightarrow>
          if a = 49 \<and> b = 48 \<and> d \<noteq> 10 then Some (a # b # takeWhile (\<lambda>x. x \<noteq> 10) (d # rest))
          else None
      | _ \<Rightarrow> None)"

fun doi_match_at :: "pystr \<Rightarrow> pystr option" where
  "doi_match_at [] = None"
| "doi_match_at (c # cs) =
     (case doi_group (c # cs) of
        Some g \<Rightarrow> Some g
      | None \<Rightarrow> if c = 10 then None else doi_match_at cs)"

fun doi_findall_first :: "pystr \<Rightarrow> pystr option" where
  "doi_findall_first [] = None"
| "doi_findall_first (c # cs) =
     (case doi_match_at (c # cs) of
        Some g \<Rightarrow> Some g
      | None \<Rightarrow> doi_findall_first cs)"

text \<open>
  \<open>clean_doi\<close>. The argument is \<open>None\<close> or a string; \<open>not dirty_doi\<close> is true for
  \<open>None\<close> and for the empty string. \<open>str(match, "utf-8")\<close> raises \<open>TypeError\<close> on a
  \<open>str\<close>, which the code catches, so \<open>resp\<close> is the match. \<open>resp.split("#")[0]\<close> is the
  part before the first \<open>#\<close> (code point 35).
\<close>

definition cleaned :: "unicode_db \<Rightarrow> pystr \<Rightarrow> pystr" where
  "cleaned U s = lower U (strip U (remove_nonprinting_characters U s))"

definition clean_doi :: "unicode_db \<Rightarrow> pystr option \<Rightarrow> error + pystr" where
  "clean_doi U dirty_doi =
     (case dirty_doi of
        None \<Rightarrow> Inl (NoDoiException ''There's no DOI at all.'')
      | Some s \<Rightarrow>
          if s = [] then Inl (NoDoiException ''There's no DOI at all.'')
          else
            (case doi_findall_first (cleaned U s) of
               None \<Rightarrow> Inl (NoDoiException ''There's no valid DOI.'')
             | Some match \<Rightarrow>
                 Inr (if 35 \<in> set match then takeWhile (\<lambda>x. x \<noteq> 35) match else match)))"


text \<open>
  \<open>is_doi_url\<close>: the pattern \<open>https?:\/\/(?:dx.)?doi.org\/(.*)\<close>, searched by
  \<open>re.findall\<close> in the lowercased url. The dots of \<open>dx.\<close> and \<open>doi.org\<close> are not
  escaped, so each matches any character but the newline. The two optional parts are
  greedy: the matcher tries them present first, then absent. The final group \<open>(.*)\<close>
  matches the empty string, so it never fails.
\<close>

definition starts_with :: "pystr \<Rightarrow> pystr \<Rightarrow> bool" where
  "starts_with p s = (take (length p) s = p)"

definition match_doi_org :: "pystr \<Rightarrow> bool" where
  "match_doi_org s =
     (starts_with (py ''doi'') s \<and>
      (case drop 3 s of [] \<Rightarrow> False | c # r \<Rightarrow> c \<noteq> 10 \<and> starts_with (py ''org/'') r))"

definition match_dx_doi_org :: "pystr \<Rightarrow> bool" where
  "match_dx_doi_org s =
     (starts_with (py ''dx'') s \<and>
      (case drop 2 s of [] \<Rightarrow> False | c # r \<Rightarrow> c \<noteq> 10 \<and> match_doi_org r))"

definition match_slashes :: "pystr \<Rightarrow> bool" where
  "match_slashes s =
     (starts_with (py ''://'') s \<and> (match_dx_doi_org (drop 3 s) \<or> match_doi_org (drop 3 s)))"

definition doi_url_match_at :: "pystr \<Rightarrow> bool" where
  "doi_url_match_at s =
     (starts_with (py ''http'') s \<and>
      ((starts_with (py ''s'') (drop 4 s) \<and> match_slashes (drop 5 s)) \<or> match_slashes (drop 4 s)))"




section \<open>Text normalisation\<close>

text \<open>
  \<open>clean_html\<close> is \<open>re.sub('<.*?>', '', raw_html)\<close>. \<open>tag_end\<close> is the rest of the
  pattern after \<open><\<close> (code point 60): lazily any non-newline characters up to the first
  \<open>>\<close> (code point 62); it returns what follows the match.
\<close>

fun tag_end :: "pystr \<Rightarrow> pystr option" where
  "tag_end [] = None"
| "tag_end (c # cs) = (if c = 62 then Some cs else if c = 10 then None else tag_end cs)"

function clean_html :: "pystr \<Rightarrow> pystr" where
  "clean_html [] = []"
| "clean_html (c # cs) =
     (if c = 60 then
        (case tag_end cs of
           Some rest \<Rightarrow> clean_html rest
         | None \<Rightarrow> c # clean_html cs)
      else c # clean_html cs)"
  by pat_completeness auto
termination
proof (relation "measure length")
  show "wf (measure length)" by simp
next
  fix c :: nat and cs rest :: pystr
  assume "tag_end cs = Some rest"
  then have "length rest < length cs"
    by (induction cs) (auto split: if_splits)
  then show "(rest, c # cs) \<in> measure length" by simp
qed simp_all

definition remove_punctuation :: "unicode_db \<Rightarrow> pystr \<Rightarrow> pystr" where
  "remove_punctuation U input_string =
     (if input_string \<noteq> [] then filter (\<lambda>e. isalnum U e \<or> isspace U e) input_string
      else input_string)"

text \<open>
  The stop-word substitutions \<open>re.sub(r"\b(a|an|the)\b", "", s)\<close> and
  \<open>re.sub(r"\b(and)\b", "", s)\<close>. For a \<open>str\<close> pattern \<open>\w\<close> is \<open>isalnum\<close> or the
  underscore (code point 95), and \<open>\b\<close> holds where exactly one of the characters before
  and after the position is a word character (a missing character counts as a non-word
  one). The scan carries \<open>prev\<close>, whether the character before the position, in the
  string being scanned, is a word character. \<open>match_word\<close> tries the alternatives in order
  and returns the first that is followed by a boundary; a match is replaced by nothing
  and the scan goes on after it.
\<close>

definition is_word :: "unicode_db \<Rightarrow> nat \<Rightarrow> bool" where
  "is_word U c = (isalnum U c \<or> c = 95)"

definition word_boundary :: "unicode_db \<Rightarrow> bool \<Rightarrow> pystr \<Rightarrow> bool" where
  "word_boundary U prev s = (prev \<noteq> (case s of [] \<Rightarrow> False | c # _ \<Rightarrow> is_word U c))"

definition alt_matches :: "unicode_db \<Rightarrow> pystr \<Rightarrow> pystr \<Rightarrow> bool" where
  "alt_matches U s w =
     (w \<noteq> [] \<and> starts_with w s \<and> word_boundary U (is_word U (last w)) (drop (length w) s))"

definition match_word :: "unicode_db \<Rightarrow> pystr list \<Rightarrow> bool \<Rightarrow> pystr \<Rightarrow> pystr option" where
  "match_word U alts prev s =
     (if word_boundary U prev s then find (alt_matches U s) alts else None)"

function re_sub_words :: "unicode_db \<Rightarrow> pystr list \<Rightarrow> bool \<Rightarrow> pystr \<Rightarrow> pystr" where
  "re_sub_words U alts prev [] = []"
| "re_sub_words U alts prev (c # cs) =
     (case match_word U alts prev (c # cs) of
        Some w \<Rightarrow> re_sub_words U alts (is_word U (last w)) (drop (length w - 1) cs)
      | None \<Rightarrow> c # re_sub_words U alts (is_word U c) cs)"
  by pat_completeness auto
termination
  by (relation "measure (\<lambda>(U, alts, prev, s). length s)") auto

text \<open>
  \<open>re.sub(r"\s+", "", s)\<close>: a maximal run of white space is replaced by nothing.
  \<open>\s\<close> on a \<open>str\<close> is the test \<open>str.isspace\<close> uses.
\<close>

function re_sub_spaces :: "unicode_db \<Rightarrow> pystr \<Rightarrow> pystr" where
  "re_sub_spaces U [] = []"
| "re_sub_spaces U (c # cs) =
     (if isspace U c then re_sub_spaces U (dropWhile (isspace U) cs)
      else c # re_sub_spaces U cs)"
  by pat_completeness auto
termination
  by (relation "measure (\<lambda>(U, s). length s)") (auto simp: length_dropWhile_le less_Suc_eq_le)

text \<open>
  \<open>normalize\<close> and \<open>normalize_simple\<close>. The first is named \<open>normalize_text\<close> here,
  \<open>normalize\<close> being a constant of the library. \<open>str(response)\<close> is the identity on a
  \<open>str\<close>.
\<close>

definition normalize_text :: "unicode_db \<Rightarrow> pystr \<Rightarrow> pystr" where
  "normalize_text U text =
     (let response = lower U text;
          response = unidecode U response;
          response = clean_html response;
          response = remove_punctuation U response;
          response = re_sub_words U [py ''a'', py ''an'', py ''the''] False response;
          response = re_sub_words U [py ''and''] False response;
          response = re_sub_spaces U response
      in response)"

definition normalize_simple :: "unicode_db \<Rightarrow> pystr \<Rightarrow> pystr" where
  "normalize_simple U text =
     (let response = lower U text;
          response = remove_punctuation U response;
          response = re_sub_words U [py ''a'', py ''an'', py ''the''] False response;
          response = re_sub_spaces U response
      in response)"



section \<open>Notions used to state the properties\<close>

text \<open>
  \<open>doi_scan\<close> is the plain left-to-right scan for the first position where the group
  \<open>(10.+)\<close> matches. It is shown below to compute what \<open>doi_findall_first\<close> computes.
\<close>

fun doi_scan :: "pystr \<Rightarrow> pystr option" where
  "doi_scan [] = None"
| "doi_scan (c # cs) = (case doi_group (c # cs) of Some g \<Rightarrow> Some g | None \<Rightarrow> doi_scan cs)"

definition nonprinting :: "unicode_db \<Rightarrow> nat \<Rightarrow> bool" where
  "nonprinting U c = (take 1 (category U c) \<in> set [''C'', ''M'', ''Z''])"

text \<open>
  \<open>plain\<close>: a printable ASCII character other than the space and the capital letters.
\<close>

definition plain :: "nat \<Rightarrow> bool" where
  "plain c = (32 < c \<and> c < 127 \<and> \<not> (65 \<le> c \<and> c \<le> 90))"


text \<open>
  What \<open>unidecode\<close> promises of its table: every entry is an ASCII string.
\<close>

definition unidecode_is_ascii :: "unicode_db \<Rightarrow> bool" where
  "unidecode_is_ascii U = (\<forall>c. is_ascii (ext_unidecode U c))"

text \<open>
  The tokenizer's view of the stop-word removal: \<open>split_words\<close> cuts a string at every
  white-space character (the first argument collects the word being read), and
  \<open>drop_words\<close> joins the words that are not in the list, with nothing between them.
\<close>

fun split_words :: "unicode_db \<Rightarrow> pystr \<Rightarrow> pystr \<Rightarrow> pystr list" where
  "split_words U w [] = [w]"
| "split_words U w (c # cs) =
     (if isspace U c then w # split_words U [] cs else split_words U (w @ [c]) cs)"

definition drop_words :: "unicode_db \<Rightarrow> pystr list \<Rightarrow> pystr \<Rightarrow> pystr" where
  "drop_words U stop s = concat (filter (\<lambda>w. w \<notin> set stop) (split_words U [] s))"

text \<open>
  The same with the white space kept: \<open>map_words\<close> applies a function to every word and
  leaves the separators where they are; \<open>keep\<close> empties the listed words. A string is
  \<open>tidy\<close> when each of its characters is either a word character or white space, and
  the alternatives of a pattern are \<open>wordy\<close> when each is a non-empty run of word
  characters.
\<close>

fun map_words :: "unicode_db \<Rightarrow> (pystr \<Rightarrow> pystr) \<Rightarrow> pystr \<Rightarrow> pystr \<Rightarrow> pystr" where
  "map_words U f w [] = f w"
| "map_words U f w (c # cs) =
     (if isspace U c then f w @ c # map_words U f [] cs else map_words U f (w @ [c]) cs)"

definition keep :: "pystr list \<Rightarrow> pystr \<Rightarrow> pystr" where
  "keep alts w = (if w \<in> set alts then [] else w)"

definition tidy :: "unicode_db \<Rightarrow> pystr \<Rightarrow> bool" where
  "tidy U p = list_all (\<lambda>c. is_word U c \<noteq> isspace U c) p"

definition wordy :: "unicode_db \<Rightarrow> pystr list \<Rightarrow> bool" where
  "wordy U alts = list_all (\<lambda>a. a \<noteq> [] \<and> list_all (is_word U) a) alts"

text \<open>
  A table that transliterates every non-ASCII code point to one given string; it is
  used to show which characters a transliteration can bring into a normalised text.
\<close>

definition one_entry_db :: "pystr \<Rightarrow> unicode_db" where
  "one_entry_db w =
     \<lparr> ext_category = (\<lambda>c. ''Cn''),
       ext_lower = (\<lambda>s i. [s ! i]),
       ext_isspace = (\<lambda>c. False),
       ext_isalnum = (\<lambda>c. False),
       ext_unidecode = (\<lambda>c. w) \<rparr>"

text \<open>
  A property of the Unicode tables: no code point is both alphanumeric and white space.
\<close>

definition alnum_space_disjoint :: "unicode_db \<Rightarrow> bool" where
  "alnum_space_disjoint U = (\<forall>c. \<not> (ext_isalnum U c \<and> ext_isspace U c))"


section \<open>Facts about the tables on the ASCII range\<close>

lemma nonprinting_ascii: "c < 128 \<Longrightarrow> nonprinting U c = (c \<le> 32 \<or> c = 127)"
  unfolding nonprinting_def category_def ascii_category_def by auto

lemma lower_ascii: "is_ascii s \<Longrightarrow> lower U s = map ascii_lower s"
proof -
  assume a: "is_ascii s"
  have e: "map (\<lambda>i. if s ! i < 128 then [ascii_lower (s ! i)] else ext_lower U s i) [0..<length s]
        = map (\<lambda>i. [ascii_lower (s ! i)]) [0..<length s]"
    using a by (simp add: is_ascii_def list_all_length)
  have "lower U s = concat (map (\<lambda>i. [ascii_lower (s ! i)]) [0..<length s])"
    unfolding lower_def by (simp only: e)
  also have "\<dots> = map (\<lambda>i. ascii_lower (s ! i)) [0..<length s]"
    by (induction "[0..<length s]") (simp_all add: concat_map_singleton)
  also have "\<dots> = map ascii_lower (map ((!) s) [0..<length s])"
    by simp
  finally show ?thesis by (simp only: map_nth)
qed


lemma set_strip: "set (strip U s) \<subseteq> set s"
proof -
  have "set (strip U s) = set (dropWhile (isspace U) (rev (dropWhile (isspace U) s)))"
    by (simp add: strip_def)
  also have "\<dots> \<subseteq> set (rev (dropWhile (isspace U) s))"
    by (auto dest: set_dropWhileD)
  also have "\<dots> \<subseteq> set s"
    by (auto dest: set_dropWhileD)
  finally show ?thesis .
qed

lemma remove_nonprinting_filter:
  "remove_nonprinting_characters U s = filter (\<lambda>c. \<not> nonprinting U c) s"
  by (simp add: remove_nonprinting_characters_def nonprinting_def)

lemma cleaned_ascii_plain:
  assumes "is_ascii s" and "c \<in> set (cleaned U s)"
  shows "plain c"
proof -
  let ?t = "strip U (remove_nonprinting_characters U s)"
  have sub: "set ?t \<subseteq> {x \<in> set s. \<not> nonprinting U x}"
    using set_strip[of U "remove_nonprinting_characters U s"]
    by (auto simp: remove_nonprinting_filter)
  have asc: "is_ascii ?t"
    using sub assms(1) by (auto simp: is_ascii_def list_all_iff)
  then have "cleaned U s = map ascii_lower ?t"
    by (simp add: cleaned_def lower_ascii)
  with assms(2) obtain x where x: "x \<in> set ?t" "c = ascii_lower x" by auto
  with sub have "x \<in> set s" "\<not> nonprinting U x" by auto
  moreover from this assms(1) have "x < 128" by (auto simp: is_ascii_def list_all_iff)
  ultimately have "32 < x \<and> x < 127" by (auto simp: nonprinting_ascii)
  with x(2) show ?thesis by (auto simp: plain_def ascii_lower_def)
qed

lemma plain_props:
  "plain c \<Longrightarrow> c < 128 \<and> \<not> isspace U c \<and> \<not> nonprinting U c \<and> ascii_lower c = c \<and> c \<noteq> 10"
  by (auto simp: plain_def isspace_def nonprinting_ascii ascii_lower_def)

lemma cleaned_plain_id:
  assumes "\<forall>c\<in>set r. plain c"
  shows "cleaned U r = r"
proof -
  have 1: "remove_nonprinting_characters U r = r"
    using assms plain_props[of _ U] by (simp add: remove_nonprinting_filter filter_id_conv)
  have 2: "strip U r = r"
  proof (cases "r = []")
    case True then show ?thesis by (simp add: strip_def)
  next
    case False
    then have "hd r \<in> set r" "last r \<in> set r" by simp_all
    with assms have "\<not> isspace U (hd r)" "\<not> isspace U (last r)"
      using plain_props[of _ U] by blast+
    then have "dropWhile (isspace U) r = r" "dropWhile (isspace U) (rev r) = rev r"
      by (simp_all add: dropWhile_eq_self_iff hd_rev)
    then show ?thesis by (simp add: strip_def)
  qed
  have "is_ascii r" using assms plain_props[of _ U] by (auto simp: is_ascii_def list_all_iff)
  then have "lower U r = map ascii_lower r" by (rule lower_ascii)
  also have "\<dots> = r" using assms plain_props[of _ U] by (simp add: map_idI)
  finally show ?thesis using 1 2 by (simp add: cleaned_def)
qed


section \<open>The search for the DOI\<close>

lemma doi_match_at_scan: "doi_match_at s = Some g \<Longrightarrow> doi_scan s = Some g"
  by (induction s) (auto split: option.splits if_splits)

lemma doi_findall_first_scan: "doi_findall_first s = doi_scan s"
proof (induction s)
  case Nil
  then show ?case by simp
next
  case (Cons c cs)
  show ?case
  proof (cases "doi_group (c # cs)")
    case (Some g)
    then show ?thesis by simp
  next
    case None
    show ?thesis
    proof (cases "c = 10")
      case True
      with None Cons show ?thesis by simp
    next
      case False
      with None Cons show ?thesis
        by (cases "doi_match_at cs") (simp_all add: doi_match_at_scan)
    qed
  qed
qed

lemma doi_group_None_iff:
  "doi_group s = None \<longleftrightarrow> \<not> (\<exists>d rest. s = 49 # 48 # d # rest \<and> d \<noteq> 10)"
  by (auto simp: doi_group_def split: list.splits)

lemma doi_group_Some_iff:
  "doi_group s = Some g \<longleftrightarrow>
     (\<exists>d rest. s = 49 # 48 # d # rest \<and> d \<noteq> 10 \<and> g = 49 # 48 # takeWhile (\<lambda>x. x \<noteq> 10) (d # rest))"
  by (auto simp: doi_group_def split: list.splits)

lemma doi_scan_None_iff:
  "doi_scan s = None \<longleftrightarrow> \<not> (\<exists>pre d rest. s = pre @ 49 # 48 # d # rest \<and> d \<noteq> 10)"
proof (induction s)
  case Nil
  then show ?case by simp
next
  case (Cons c cs)
  have "(\<exists>pre d rest. c # cs = pre @ 49 # 48 # d # rest \<and> d \<noteq> 10) \<longleftrightarrow>
        (\<exists>d rest. c # cs = 49 # 48 # d # rest \<and> d \<noteq> 10) \<or>
        (\<exists>pre d rest. cs = pre @ 49 # 48 # d # rest \<and> d \<noteq> 10)"
  proof
    assume "\<exists>pre d rest. c # cs = pre @ 49 # 48 # d # rest \<and> d \<noteq> 10"
    then obtain pre d rest where e: "c # cs = pre @ 49 # 48 # d # rest" "d \<noteq> 10" by blast
    show "(\<exists>d rest. c # cs = 49 # 48 # d # rest \<and> d \<noteq> 10) \<or>
        (\<exists>pre d rest. cs = pre @ 49 # 48 # d # rest \<and> d \<noteq> 10)"
    proof (cases pre)
      case Nil
      with e show ?thesis by auto
    next
      case (Cons x pre')
      with e have "cs = pre' @ 49 # 48 # d # rest" by simp
      with e(2) show ?thesis by blast
    qed
  next
    assume "(\<exists>d rest. c # cs = 49 # 48 # d # rest \<and> d \<noteq> 10) \<or>
        (\<exists>pre d rest. cs = pre @ 49 # 48 # d # rest \<and> d \<noteq> 10)"
    then show "\<exists>pre d rest. c # cs = pre @ 49 # 48 # d # rest \<and> d \<noteq> 10"
    proof
      assume "\<exists>d rest. c # cs = 49 # 48 # d # rest \<and> d \<noteq> 10"
      then obtain d rest where "c # cs = [] @ 49 # 48 # d # rest" "d \<noteq> 10" by auto
      then show ?thesis by blast
    next
      assume "\<exists>pre d rest. cs = pre @ 49 # 48 # d # rest \<and> d \<noteq> 10"
      then obtain pre d rest where "c # cs = (c # pre) @ 49 # 48 # d # rest" "d \<noteq> 10" by auto
      then show ?thesis by blast
    qed
  qed
  with Cons show ?case
    using doi_group_None_iff[of "c # cs"] by (auto split: option.splits)
qed

lemma doi_scan_Some:
  "doi_scan s = Some g \<Longrightarrow>
     \<exists>pre d rest. s = pre @ 49 # 48 # d # rest \<and> d \<noteq> 10
        \<and> g = 49 # 48 # takeWhile (\<lambda>x. x \<noteq> 10) (d # rest)
        \<and> doi_scan (pre @ [49, 48]) = None"
proof (induction s)
  case Nil
  then show ?case by simp
next
  case (Cons c cs)
  show ?case
  proof (cases "doi_group (c # cs)")
    case (Some g')
    with Cons.prems have "g' = g" by simp
    with Some obtain d rest where "c # cs = 49 # 48 # d # rest" "d \<noteq> 10"
      "g = 49 # 48 # takeWhile (\<lambda>x. x \<noteq> 10) (d # rest)"
      by (auto simp: doi_group_Some_iff)
    then show ?thesis
      by (intro exI[of _ "[]"] exI[of _ d] exI[of _ rest]) (simp add: doi_group_def)
  next
    case None
    with Cons.prems have "doi_scan cs = Some g" by simp
    from Cons.IH[OF this] obtain pre d rest where
      e: "cs = pre @ 49 # 48 # d # rest" "d \<noteq> 10"
         "g = 49 # 48 # takeWhile (\<lambda>x. x \<noteq> 10) (d # rest)" "doi_scan (pre @ [49, 48]) = None"
      by blast
    have "doi_group (c # pre @ [49, 48]) = None"
      using None e(1) by (cases pre; cases "tl pre") (auto simp: doi_group_def split: list.splits if_splits)
    with e show ?thesis
      by (intro exI[of _ "c # pre"] exI[of _ d] exI[of _ rest]) simp
  qed
qed

lemma takeWhile_hash:
  "(if 35 \<in> set m then takeWhile (\<lambda>x. x \<noteq> 35) m else m) = takeWhile (\<lambda>x. x \<noteq> (35::nat)) m"
  by (induction m) auto

lemma clean_doi_Some:
  "s \<noteq> [] \<Longrightarrow> clean_doi U (Some s) =
     (case doi_scan (cleaned U s) of
        None \<Rightarrow> Inl (NoDoiException ''There's no valid DOI.'')
      | Some m \<Rightarrow> Inr (takeWhile (\<lambda>x. x \<noteq> 35) m))"
  unfolding clean_doi_def by (simp only: takeWhile_hash doi_findall_first_scan option.case if_False)

lemma clean_doi_empty:
  "clean_doi U None = Inl (NoDoiException ''There's no DOI at all.'')"
  "clean_doi U (Some []) = Inl (NoDoiException ''There's no DOI at all.'')"
  by (simp_all add: clean_doi_def)

lemma messages_differ: "''There's no DOI at all.'' \<noteq> ''There's no valid DOI.''"
  by simp

lemma clean_doi_Inr:
  assumes "clean_doi U d = Inr r"
  shows "\<exists>s pre dd rest. d = Some s \<and> s \<noteq> [] \<and> cleaned U s = pre @ 49 # 48 # dd # rest \<and> dd \<noteq> 10
           \<and> r = takeWhile (\<lambda>x. x \<noteq> 35) (49 # 48 # takeWhile (\<lambda>x. x \<noteq> 10) (dd # rest))
           \<and> doi_scan (pre @ [49, 48]) = None"
proof -
  have "d \<noteq> None"
    using assms clean_doi_empty(1)[of U] by (cases d) simp_all
  moreover have "d \<noteq> Some []"
    using assms clean_doi_empty(2)[of U] by (cases d) auto
  ultimately obtain s where s: "d = Some s" "s \<noteq> []"
    by (cases d) auto
  with assms obtain m where m: "doi_scan (cleaned U s) = Some m" "r = takeWhile (\<lambda>x. x \<noteq> 35) m"
    by (auto simp: clean_doi_Some split: option.splits)
  from doi_scan_Some[OF m(1)] m(2) s show ?thesis by blast
qed

lemma clean_doi_Inr_shape:
  assumes "clean_doi U d = Inr r"
  shows "\<exists>s pre u post. d = Some s \<and> s \<noteq> [] \<and> cleaned U s = pre @ r @ post \<and> r = 49 # 48 # u
           \<and> (\<forall>x\<in>set u. x \<noteq> 10 \<and> x \<noteq> 35)"
proof -
  from clean_doi_Inr[OF assms] obtain s pre dd rest where
    e: "d = Some s" "s \<noteq> []" "cleaned U s = pre @ 49 # 48 # dd # rest" "dd \<noteq> 10"
       "r = takeWhile (\<lambda>x. x \<noteq> 35) (49 # 48 # takeWhile (\<lambda>x. x \<noteq> 10) (dd # rest))"
    by blast
  let ?t = "takeWhile (\<lambda>x. x \<noteq> 10) (dd # rest)"
  let ?u = "takeWhile (\<lambda>x. x \<noteq> 35) ?t"
  have r: "r = 49 # 48 # ?u" using e(5) by simp
  have a: "?t @ dropWhile (\<lambda>x. x \<noteq> 10) (dd # rest) = dd # rest"
    by (rule takeWhile_dropWhile_id)
  have b: "?u @ dropWhile (\<lambda>x. x \<noteq> 35) ?t = ?t"
    by (rule takeWhile_dropWhile_id)
  have "pre @ r @ (dropWhile (\<lambda>x. x \<noteq> 35) ?t @ dropWhile (\<lambda>x. x \<noteq> 10) (dd # rest))
      = pre @ 49 # 48 # ((?u @ dropWhile (\<lambda>x. x \<noteq> 35) ?t) @ dropWhile (\<lambda>x. x \<noteq> 10) (dd # rest))"
    by (simp only: r append.simps append_assoc)
  also have "\<dots> = pre @ 49 # 48 # dd # rest"
    by (simp only: a b)
  finally have "cleaned U s = pre @ r @ (dropWhile (\<lambda>x. x \<noteq> 35) ?t @ dropWhile (\<lambda>x. x \<noteq> 10) (dd # rest))"
    using e(3) by simp
  moreover have "\<forall>x\<in>set ?u. x \<noteq> 10 \<and> x \<noteq> 35"
    by (auto dest!: set_takeWhileD)
  ultimately show ?thesis using e(1,2) r by blast
qed


section \<open>The resolver pattern\<close>

lemma starts_with_append: "starts_with p s \<Longrightarrow> \<exists>r. s = p @ r"
  unfolding starts_with_def by (metis append_take_drop_id)




lemma match_doi_org_shape:
  "match_doi_org r \<Longrightarrow> \<exists>c rest. r = py ''doi'' @ c # py ''org/'' @ rest"
proof -
  assume a: "match_doi_org r"
  then obtain r1 where 1: "r = py ''doi'' @ r1"
    using starts_with_append[of "py ''doi''" r] by (auto simp: match_doi_org_def)
  with a obtain c r2 where 2: "r1 = c # r2" "starts_with (py ''org/'') r2"
    by (auto simp: match_doi_org_def py_def split: list.splits)
  from starts_with_append[OF 2(2)] obtain r3 where "r2 = py ''org/'' @ r3" by blast
  with 1 2(1) have "r = py ''doi'' @ c # py ''org/'' @ r3" by simp
  then show ?thesis by blast
qed

lemma match_dx_doi_org_shape:
  "match_dx_doi_org q \<Longrightarrow> \<exists>m r. q = m @ r \<and> match_doi_org r"
proof -
  assume a: "match_dx_doi_org q"
  then obtain c r where 1: "drop 2 q = c # r" "match_doi_org r"
    by (auto simp: match_dx_doi_org_def split: list.splits)
  have "drop 3 q = drop 1 (drop 2 q)" by (simp add: numeral_3_eq_3)
  with 1(1) have "drop 3 q = r" by simp
  then have "q = take 3 q @ r" by (metis append_take_drop_id)
  with 1(2) show ?thesis by blast
qed

lemma match_slashes_shape:
  "match_slashes s \<Longrightarrow> \<exists>m r. s = m @ r \<and> match_doi_org r"
proof -
  assume a: "match_slashes s"
  have 1: "s = take 3 s @ drop 3 s" by simp
  from a consider "match_dx_doi_org (drop 3 s)" | "match_doi_org (drop 3 s)"
    by (auto simp: match_slashes_def)
  then show ?thesis
  proof cases
    case 1
    from match_dx_doi_org_shape[OF 1] obtain m r where "drop 3 s = m @ r" "match_doi_org r"
      by blast
    then have "s = (take 3 s @ m) @ r \<and> match_doi_org r"
      by (metis append_assoc append_take_drop_id)
    then show ?thesis by blast
  next
    case 2
    with 1 show ?thesis by blast
  qed
qed

lemma doi_url_match_at_shape:
  "doi_url_match_at t \<Longrightarrow> \<exists>mid suf. t = py ''http'' @ mid @ py ''org/'' @ suf"
proof -
  assume a: "doi_url_match_at t"
  then obtain t1 where 1: "t = py ''http'' @ t1"
    using starts_with_append[of "py ''http''" t] by (auto simp: doi_url_match_at_def)
  then have d4: "drop 4 t = t1" "drop 5 t = drop 1 t1" by (simp_all add: py_def)
  from a consider "match_slashes (drop 5 t)" | "match_slashes (drop 4 t)"
    by (auto simp: doi_url_match_at_def)
  then obtain m0 r0 where 2: "t1 = m0 @ r0" "match_slashes r0"
  proof cases
    case 1
    have "t1 = take 1 t1 @ drop 1 t1" by simp
    with 1 d4 that show ?thesis by metis
  next
    case 2
    have "t1 = [] @ t1" by simp
    with 2 d4 that show ?thesis by metis
  qed
  from match_slashes_shape[OF 2(2)] obtain m r where 3: "r0 = m @ r" "match_doi_org r" by blast
  from match_doi_org_shape[OF 3(2)] obtain c rest where 4: "r = py ''doi'' @ c # py ''org/'' @ rest"
    by blast
  from 1 2(1) 3(1) 4 have "t = py ''http'' @ (m0 @ m @ py ''doi'' @ [c]) @ py ''org/'' @ rest"
    by simp
  then show ?thesis by blast
qed

lemma starts_with_iff: "starts_with p s \<longleftrightarrow> (\<exists>r. s = p @ r)"
  unfolding starts_with_def by (metis append_eq_conv_conj append_take_drop_id)







section \<open>The steps of the text normalisation\<close>

lemma tag_end_set: "tag_end s = Some r \<Longrightarrow> set r \<subseteq> set s"
  by (induction s) (auto split: if_splits)

lemma tag_end_length: "tag_end s = Some r \<Longrightarrow> length r < length s"
  by (induction s) (auto split: if_splits)

lemma set_clean_html: "set (clean_html s) \<subseteq> set s"
proof (induction s rule: clean_html.induct)
  case 1
  then show ?case by simp
next
  case (2 c cs)
  show ?case
  proof (cases "c = 60")
    case True
    show ?thesis
    proof (cases "tag_end cs")
      case None
      with True 2 show ?thesis by auto
    next
      case (Some rest)
      with True 2 tag_end_set[OF Some] show ?thesis by auto
    qed
  next
    case False
    with 2 show ?thesis by auto
  qed
qed

lemma length_clean_html: "length (clean_html s) \<le> length s"
proof (induction s rule: clean_html.induct)
  case 1
  then show ?case by simp
next
  case (2 c cs)
  show ?case
  proof (cases "c = 60")
    case True
    show ?thesis
    proof (cases "tag_end cs")
      case None
      with True 2 show ?thesis by auto
    next
      case (Some rest)
      with True 2 tag_end_length[OF Some] show ?thesis by auto
    qed
  next
    case False
    with 2 show ?thesis by auto
  qed
qed

lemma remove_punctuation_filter:
  "remove_punctuation U s = filter (\<lambda>e. isalnum U e \<or> isspace U e) s"
  by (simp add: remove_punctuation_def)

lemma set_re_sub_words: "set (re_sub_words U alts prev s) \<subseteq> set s"
proof (induction U alts prev s rule: re_sub_words.induct)
  case (1 U alts prev)
  then show ?case by simp
next
  case (2 U alts prev c cs)
  show ?case
  proof (cases "match_word U alts prev (c # cs)")
    case None
    with 2 show ?thesis by auto
  next
    case (Some w)
    with 2 have "set (re_sub_words U alts prev (c # cs)) \<subseteq> set (drop (length w - 1) cs)" by simp
    also have "\<dots> \<subseteq> set (c # cs)" by (auto dest: in_set_dropD)
    finally show ?thesis .
  qed
qed

lemma length_re_sub_words: "length (re_sub_words U alts prev s) \<le> length s"
proof (induction U alts prev s rule: re_sub_words.induct)
  case (1 U alts prev)
  then show ?case by simp
next
  case (2 U alts prev c cs)
  show ?case
  proof (cases "match_word U alts prev (c # cs)")
    case None
    with 2 show ?thesis by auto
  next
    case (Some w)
    with 2 have "length (re_sub_words U alts prev (c # cs)) \<le> length (drop (length w - 1) cs)" by simp
    then show ?thesis by simp
  qed
qed

lemma filter_dropWhile_not: "filter (\<lambda>c. \<not> P c) (dropWhile P xs) = filter (\<lambda>c. \<not> P c) xs"
  by (induction xs) auto

lemma re_sub_spaces_filter: "re_sub_spaces U s = filter (\<lambda>c. \<not> isspace U c) s"
proof (induction U s rule: re_sub_spaces.induct)
  case (1 U)
  then show ?case by simp
next
  case (2 U c cs)
  then show ?case by (simp add: filter_dropWhile_not)
qed

lemma unidecode_ascii_id: "is_ascii s \<Longrightarrow> unidecode U s = s"
  unfolding unidecode_def is_ascii_def by (induction s) auto

lemma is_ascii_lower: "is_ascii s \<Longrightarrow> is_ascii (lower U s)"
  by (auto simp: lower_ascii is_ascii_def list_all_iff ascii_lower_def)

lemma lower_ascii_no_upper: "is_ascii s \<Longrightarrow> c \<in> set (lower U s) \<Longrightarrow> \<not> (65 \<le> c \<and> c \<le> 90)"
  by (auto simp: lower_ascii ascii_lower_def)

lemma normalize_text_filter:
  "normalize_text U t =
     filter (\<lambda>c. \<not> isspace U c)
       (re_sub_words U [py ''and''] False
          (re_sub_words U [py ''a'', py ''an'', py ''the''] False
             (remove_punctuation U (clean_html (unidecode U (lower U t))))))"
  by (simp add: normalize_text_def re_sub_spaces_filter)

lemma normalize_simple_filter:
  "normalize_simple U t =
     filter (\<lambda>c. \<not> isspace U c)
       (re_sub_words U [py ''a'', py ''an'', py ''the''] False (remove_punctuation U (lower U t)))"
  by (simp add: normalize_simple_def re_sub_spaces_filter)

lemma set_normalize_text:
  "set (normalize_text U t) \<subseteq>
     {c \<in> set (unidecode U (lower U t)). (isalnum U c \<or> isspace U c) \<and> \<not> isspace U c}"
proof -
  let ?p = "remove_punctuation U (clean_html (unidecode U (lower U t)))"
  have "set (normalize_text U t) \<subseteq> {c \<in> set ?p. \<not> isspace U c}"
    unfolding normalize_text_filter
    using set_re_sub_words[of U "[py ''and'']" False "re_sub_words U [py ''a'', py ''an'', py ''the''] False ?p"]
          set_re_sub_words[of U "[py ''a'', py ''an'', py ''the'']" False ?p]
    by auto
  moreover have "set ?p \<subseteq> {c \<in> set (unidecode U (lower U t)). isalnum U c \<or> isspace U c}"
    using set_clean_html[of "unidecode U (lower U t)"] by (auto simp: remove_punctuation_filter)
  ultimately show ?thesis by blast
qed

lemma set_normalize_simple:
  "set (normalize_simple U t) \<subseteq> {c \<in> set (lower U t). (isalnum U c \<or> isspace U c) \<and> \<not> isspace U c}"
  unfolding normalize_simple_filter
  using set_re_sub_words[of U "[py ''a'', py ''an'', py ''the'']" False "remove_punctuation U (lower U t)"]
  by (auto simp: remove_punctuation_filter)

lemma is_ascii_unidecode: "unidecode_is_ascii U \<Longrightarrow> is_ascii (unidecode U s)"
  unfolding unidecode_def unidecode_is_ascii_def is_ascii_def list_all_iff by auto

lemma sample_db_unidecode_is_ascii: "unidecode_is_ascii sample_db"
  by (simp add: unidecode_is_ascii_def sample_db_def is_ascii_def py_def)


section \<open>The stop-word scan, word by word\<close>

lemma map_words_word:
  "list_all (\<lambda>c. \<not> isspace U c) w \<Longrightarrow> map_words U f acc w = f (acc @ w)"
  by (induction w arbitrary: acc) auto

lemma map_words_sep:
  "list_all (\<lambda>c. \<not> isspace U c) w \<Longrightarrow> isspace U c \<Longrightarrow>
     map_words U f acc (w @ c # cs) = f (acc @ w) @ c # map_words U f [] cs"
  by (induction w arbitrary: acc) auto

lemma split_words_word:
  "list_all (\<lambda>c. \<not> isspace U c) w \<Longrightarrow> split_words U acc w = [acc @ w]"
  by (induction w arbitrary: acc) auto

lemma re_sub_words_inside:
  "list_all (is_word U) w \<Longrightarrow> re_sub_words U alts True (w @ r) = w @ re_sub_words U alts True r"
proof (induction w)
  case Nil
  then show ?case by simp
next
  case (Cons c w)
  then have "match_word U alts True (c # w @ r) = None"
    by (simp add: match_word_def word_boundary_def)
  with Cons show ?case by simp
qed

lemma re_sub_words_sep:
  assumes "wordy U alts" and "\<not> is_word U c"
  shows "re_sub_words U alts prev (c # cs) = c # re_sub_words U alts False cs"
proof -
  have "\<not> alt_matches U (c # cs) a" if "a \<in> set alts" for a
  proof
    assume m: "alt_matches U (c # cs) a"
    from that assms(1) have a: "a \<noteq> []" "list_all (is_word U) a"
      by (auto simp: wordy_def list_all_iff)
    from m a(1) have "hd a = c"
      by (cases a) (auto simp: alt_matches_def starts_with_def)
    with a assms(2) show False by (cases a) auto
  qed
  then have "find (alt_matches U (c # cs)) alts = None"
    by (simp add: find_None_iff)
  then have "match_word U alts prev (c # cs) = None"
    by (simp add: match_word_def)
  with assms(2) show ?thesis by simp
qed

lemma alt_matches_word:
  assumes "w \<noteq> []" and "list_all (is_word U) w"
    and "r = [] \<or> \<not> is_word U (hd r)"
    and "a \<noteq> []" and "list_all (is_word U) a"
  shows "alt_matches U (w @ r) a \<longleftrightarrow> a = w"
proof
  assume "a = w"
  with assms(1,2,3) show "alt_matches U (w @ r) a"
    by (cases r) (auto simp: alt_matches_def starts_with_def word_boundary_def list_all_iff)
next
  assume m: "alt_matches U (w @ r) a"
  then have st: "take (length a) (w @ r) = a"
    and wb: "word_boundary U (is_word U (last a)) (drop (length a) (w @ r))"
    by (auto simp: alt_matches_def starts_with_def)
  from assms(4,5) have la: "is_word U (last a)" by (auto simp: list_all_iff)
  show "a = w"
  proof (cases "length a < length w")
    case True
    then have "drop (length a) (w @ r) = (w ! length a) # drop (Suc (length a)) w @ r"
      by (simp add: Cons_nth_drop_Suc)
    moreover from True assms(2) have "is_word U (w ! length a)"
      by (simp add: list_all_length)
    ultimately show ?thesis using wb la by (simp add: word_boundary_def)
  next
    case False
    show ?thesis
    proof (cases "length a = length w")
      case True
      with st show ?thesis by simp
    next
      case False
      with \<open>\<not> length a < length w\<close> have gt: "length w < length a" by simp
      have "length (take (length a) (w @ r)) = length a" using st by simp
      then have "length a \<le> length (w @ r)" by simp
      with gt have rne: "r \<noteq> []" by auto
      from st gt have "a ! length w = (w @ r) ! length w"
        by (metis nth_take)
      also have "\<dots> = hd r" using rne by (simp add: nth_append hd_conv_nth)
      finally have "a ! length w = hd r" .
      moreover from gt assms(5) have "is_word U (a ! length w)" by (simp add: list_all_length)
      ultimately show ?thesis using assms(3) rne by simp
    qed
  qed
qed

lemma find_unique:
  "x \<in> set xs \<Longrightarrow> (\<And>y. y \<in> set xs \<Longrightarrow> P y \<longleftrightarrow> y = x) \<Longrightarrow> find P xs = Some x"
  by (induction xs) auto

lemma re_sub_words_word:
  assumes "wordy U alts" and "w \<noteq> []" and "list_all (is_word U) w"
    and "r = [] \<or> \<not> is_word U (hd r)"
  shows "re_sub_words U alts False (w @ r) = keep alts w @ re_sub_words U alts True r"
proof -
  from assms(2) obtain c w' where w: "w = c # w'" by (cases w) auto
  with assms(3) have cw: "is_word U c" "list_all (is_word U) w'" by simp_all
  have am: "alt_matches U (w @ r) a \<longleftrightarrow> a = w" if "a \<in> set alts" for a
  proof -
    from that assms(1) have "a \<noteq> []" "list_all (is_word U) a"
      by (auto simp: wordy_def list_all_iff)
    with assms(2,3,4) show ?thesis by (intro alt_matches_word)
  qed
  have bd: "word_boundary U False (w @ r)" using w cw by (simp add: word_boundary_def)
  show ?thesis
  proof (cases "w \<in> set alts")
    case True
    then have "find (alt_matches U (w @ r)) alts = Some w"
      using am by (intro find_unique)
    then have "match_word U alts False (c # w' @ r) = Some w"
      using bd w by (simp add: match_word_def)
    moreover have "is_word U (last w)" using assms(2,3) by (auto simp: list_all_iff)
    ultimately show ?thesis using True w by (simp add: keep_def)
  next
    case False
    then have "find (alt_matches U (w @ r)) alts = None"
      using am by (auto simp: find_None_iff)
    then have "match_word U alts False (c # w' @ r) = None"
      using w by (simp add: match_word_def)
    then show ?thesis using False w cw re_sub_words_inside[OF cw(2), of alts r]
      by (simp add: keep_def)
  qed
qed


section \<open>The stop-word scan as a tokenizer\<close>

lemma tidy_split:
  assumes "tidy U p"
  shows "list_all (is_word U) (takeWhile (\<lambda>c. \<not> isspace U c) p)"
    and "list_all (\<lambda>c. \<not> isspace U c) (takeWhile (\<lambda>c. \<not> isspace U c) p)"
    and "dropWhile (\<lambda>c. \<not> isspace U c) p = [] \<or>
         (isspace U (hd (dropWhile (\<lambda>c. \<not> isspace U c) p)) \<and>
          \<not> is_word U (hd (dropWhile (\<lambda>c. \<not> isspace U c) p)))"
    and "tidy U (dropWhile (\<lambda>c. \<not> isspace U c) p)"
proof -
  show "list_all (is_word U) (takeWhile (\<lambda>c. \<not> isspace U c) p)"
    using assms by (auto simp: tidy_def list_all_iff dest!: set_takeWhileD)
  show "list_all (\<lambda>c. \<not> isspace U c) (takeWhile (\<lambda>c. \<not> isspace U c) p)"
    by (auto simp: list_all_iff dest!: set_takeWhileD)
  show t: "tidy U (dropWhile (\<lambda>c. \<not> isspace U c) p)"
    using assms by (auto simp: tidy_def list_all_iff dest!: set_dropWhileD)
  show "dropWhile (\<lambda>c. \<not> isspace U c) p = [] \<or>
         (isspace U (hd (dropWhile (\<lambda>c. \<not> isspace U c) p)) \<and>
          \<not> is_word U (hd (dropWhile (\<lambda>c. \<not> isspace U c) p)))"
  proof (cases "dropWhile (\<lambda>c. \<not> isspace U c) p")
    case Nil
    then show ?thesis by simp
  next
    case (Cons c cs)
    then have "isspace U c" using hd_dropWhile[of "\<lambda>c. \<not> isspace U c" p] by simp
    moreover from t Cons have "is_word U c \<noteq> isspace U c" by (simp add: tidy_def)
    ultimately show ?thesis using Cons by simp
  qed
qed

lemma tidy_Cons: "tidy U (c # cs) \<Longrightarrow> tidy U cs"
  by (simp add: tidy_def)

lemma re_sub_words_map_words:
  assumes "wordy U alts"
  shows "tidy U p \<Longrightarrow> re_sub_words U alts False p = map_words U (keep alts) [] p"
proof (induction p rule: length_induct)
  case (1 p)
  let ?w = "takeWhile (\<lambda>c. \<not> isspace U c) p"
  let ?r = "dropWhile (\<lambda>c. \<not> isspace U c) p"
  note ts = tidy_split[OF "1.prems"]
  have p: "p = ?w @ ?r" by simp
  have tail: "re_sub_words U alts True ?r = (case ?r of [] \<Rightarrow> [] | c # cs \<Rightarrow> c # map_words U (keep alts) [] cs)"
  proof (cases ?r)
    case Nil
    show ?thesis unfolding Nil by simp
  next
    case (Cons c cs)
    with ts(3) have c: "isspace U c" "\<not> is_word U c" by simp_all
    have "length cs < length p"
      using Cons length_dropWhile_le[of "\<lambda>c. \<not> isspace U c" p] by simp
    moreover from ts(4) Cons have "tidy U cs" by (simp add: tidy_def)
    ultimately have "re_sub_words U alts False cs = map_words U (keep alts) [] cs"
      using "1.IH" by blast
    moreover have "re_sub_words U alts True (c # cs) = c # re_sub_words U alts False cs"
      by (rule re_sub_words_sep[OF assms c(2)])
    ultimately show ?thesis unfolding Cons by (simp only: list.case)
  qed
  have rhs: "map_words U (keep alts) [] p = keep alts ?w @ (case ?r of [] \<Rightarrow> [] | c # cs \<Rightarrow> c # map_words U (keep alts) [] cs)"
  proof (cases ?r)
    case Nil
    have "p = ?w" by (metis p Nil append_Nil2)
    then have "map_words U (keep alts) [] p = map_words U (keep alts) [] ?w" by simp
    also have "\<dots> = keep alts ?w" using map_words_word[OF ts(2), of "keep alts" "[]"] by simp
    finally show ?thesis unfolding Nil by simp
  next
    case (Cons c cs)
    with ts(3) have c: "isspace U c" by simp
    have "map_words U (keep alts) [] p = map_words U (keep alts) [] (?w @ c # cs)"
      using p Cons by simp
    also have "\<dots> = keep alts ?w @ c # map_words U (keep alts) [] cs"
      using map_words_sep[OF ts(2) c, of "keep alts" "[]" cs] by simp
    finally show ?thesis using Cons by simp
  qed
  have lhs: "re_sub_words U alts False p = keep alts ?w @ re_sub_words U alts True ?r"
  proof (cases "?w = []")
    case True
    then have pr: "p = ?r" by (metis p append_Nil)
    show ?thesis
    proof (cases ?r)
      case Nil
      with pr have "p = []" by simp
      then show ?thesis by (simp add: keep_def)
    next
      case (Cons c cs)
      with ts(3) have nw: "\<not> is_word U c" by simp
      have "re_sub_words U alts False (c # cs) = re_sub_words U alts True (c # cs)"
        by (simp only: re_sub_words_sep[OF assms nw])
      moreover have "keep alts ?w = []" unfolding True by (simp add: keep_def)
      ultimately show ?thesis using pr Cons by simp
    qed
  next
    case False
    from ts(3) have "?r = [] \<or> \<not> is_word U (hd ?r)" by blast
    from re_sub_words_word[OF assms False ts(1) this] p show ?thesis by simp
  qed
  from lhs rhs tail show ?case by simp
qed

lemma keep_keep: "keep B (keep A w) = keep (A @ B) w"
  by (auto simp: keep_def)

lemma keep_nospace:
  "list_all (\<lambda>c. \<not> isspace U c) w \<Longrightarrow> list_all (\<lambda>c. \<not> isspace U c) (keep A w)"
  by (simp add: keep_def)

lemma map_words_keep_keep:
  "map_words U (keep B) [] (map_words U (keep A) [] p) = map_words U (keep (A @ B)) [] p"
proof (induction p rule: length_induct)
  case (1 p)
  let ?w = "takeWhile (\<lambda>c. \<not> isspace U c) p"
  let ?r = "dropWhile (\<lambda>c. \<not> isspace U c) p"
  have ns: "list_all (\<lambda>c. \<not> isspace U c) ?w"
    by (auto simp: list_all_iff dest!: set_takeWhileD)
  have p: "p = ?w @ ?r" by simp
  show ?case
  proof (cases ?r)
    case Nil
    have pw: "p = ?w" by (metis p Nil append_Nil2)
    have "map_words U (keep A) [] p = keep A ?w"
      using map_words_word[OF ns, of "keep A" "[]"] pw by simp
    moreover have "map_words U (keep B) [] (keep A ?w) = keep B (keep A ?w)"
      using map_words_word[OF keep_nospace[OF ns], of "keep B" "[]" A] by simp
    moreover have "map_words U (keep (A @ B)) [] p = keep (A @ B) ?w"
      using map_words_word[OF ns, of "keep (A @ B)" "[]"] pw by simp
    ultimately show ?thesis by (simp add: keep_keep)
  next
    case (Cons c cs)
    then have c: "isspace U c" using hd_dropWhile[of "\<lambda>c. \<not> isspace U c" p] by simp
    have pc: "p = ?w @ c # cs" using p Cons by simp
    have "length cs < length p"
      using Cons length_dropWhile_le[of "\<lambda>c. \<not> isspace U c" p] by simp
    then have ih: "map_words U (keep B) [] (map_words U (keep A) [] cs) = map_words U (keep (A @ B)) [] cs"
      using "1.IH" by blast
    have "map_words U (keep A) [] p = keep A ?w @ c # map_words U (keep A) [] cs"
      using map_words_sep[OF ns c, of "keep A" "[]" cs] pc by simp
    moreover have "map_words U (keep B) [] (keep A ?w @ c # map_words U (keep A) [] cs)
        = keep B (keep A ?w) @ c # map_words U (keep B) [] (map_words U (keep A) [] cs)"
      using map_words_sep[OF keep_nospace[OF ns] c, of "keep B" "[]" A "map_words U (keep A) [] cs"] by simp
    moreover have "map_words U (keep (A @ B)) [] p = keep (A @ B) ?w @ c # map_words U (keep (A @ B)) [] cs"
      using map_words_sep[OF ns c, of "keep (A @ B)" "[]" cs] pc by simp
    ultimately show ?thesis using ih by (simp add: keep_keep)
  qed
qed

lemma filter_map_words:
  "list_all (\<lambda>c. \<not> isspace U c) acc \<Longrightarrow>
     filter (\<lambda>c. \<not> isspace U c) (map_words U (keep A) acc p)
       = concat (filter (\<lambda>w. w \<notin> set A) (split_words U acc p))"
proof (induction p arbitrary: acc)
  case Nil
  then show ?case by (auto simp: keep_def list_all_iff filter_id_conv)
next
  case (Cons c cs)
  show ?case
  proof (cases "isspace U c")
    case True
    have ih: "filter (\<lambda>c. \<not> isspace U c) (map_words U (keep A) [] cs)
        = concat (filter (\<lambda>w. w \<notin> set A) (split_words U [] cs))"
      using Cons.IH[of "[]"] by simp
    have m: "map_words U (keep A) acc (c # cs) = keep A acc @ c # map_words U (keep A) [] cs"
      using True by simp
    show ?thesis
    proof (cases "acc \<in> set A")
      case inA: True
      then have "keep A acc = []" by (simp add: keep_def)
      with m ih inA True show ?thesis by simp
    next
      case notA: False
      then have "keep A acc = acc" by (simp add: keep_def)
      moreover have "filter (\<lambda>c. \<not> isspace U c) acc = acc"
        using Cons.prems by (auto simp: list_all_iff filter_id_conv)
      ultimately show ?thesis using m ih notA True by simp
    qed
  next
    case False
    with Cons.prems have "list_all (\<lambda>c. \<not> isspace U c) (acc @ [c])" by simp
    from Cons.IH[OF this] False show ?thesis by simp
  qed
qed

lemma tidy_subset: "tidy U p \<Longrightarrow> set q \<subseteq> set p \<Longrightarrow> tidy U q"
  by (auto simp: tidy_def list_all_iff)

lemma tidy_remove_punctuation: "is_ascii x \<Longrightarrow> tidy U (remove_punctuation U x)"
  by (auto simp: tidy_def list_all_iff remove_punctuation_filter is_ascii_def is_word_def
      isalnum_def isspace_def)

lemma wordy_articles: "wordy U [py ''a'', py ''an'', py ''the'']"
  by (simp add: wordy_def py_def is_word_def isalnum_def)

lemma wordy_and: "wordy U [py ''and'']"
  by (simp add: wordy_def py_def is_word_def isalnum_def)

lemma stop_words_drop:
  assumes "tidy U p"
  shows "filter (\<lambda>c. \<not> isspace U c)
           (re_sub_words U [py ''and''] False (re_sub_words U [py ''a'', py ''an'', py ''the''] False p))
         = drop_words U [py ''a'', py ''an'', py ''the'', py ''and''] p"
proof -
  let ?A = "[py ''a'', py ''an'', py ''the'']"
  let ?B = "[py ''and'']"
  have 1: "re_sub_words U ?A False p = map_words U (keep ?A) [] p"
    using re_sub_words_map_words[OF wordy_articles assms] .
  have "tidy U (re_sub_words U ?A False p)"
    using tidy_subset[OF assms set_re_sub_words] .
  from re_sub_words_map_words[OF wordy_and this]
  have "re_sub_words U ?B False (re_sub_words U ?A False p)
          = map_words U (keep ?B) [] (map_words U (keep ?A) [] p)"
    by (simp only: 1)
  also have "\<dots> = map_words U (keep (?A @ ?B)) [] p"
    by (rule map_words_keep_keep)
  finally show ?thesis
    using filter_map_words[of U "[]" "?A @ ?B" p] by (simp add: drop_words_def)
qed

lemma articles_drop:
  assumes "tidy U p"
  shows "filter (\<lambda>c. \<not> isspace U c) (re_sub_words U [py ''a'', py ''an'', py ''the''] False p)
         = drop_words U [py ''a'', py ''an'', py ''the''] p"
  using re_sub_words_map_words[OF wordy_articles assms]
        filter_map_words[of U "[]" "[py ''a'', py ''an'', py ''the'']" p]
  by (simp add: drop_words_def)

lemma clean_html_id: "60 \<notin> set s \<Longrightarrow> clean_html s = s"
  by (induction s) auto

lemma word_survives:
  assumes "list_all (\<lambda>c. (48 \<le> c \<and> c \<le> 57) \<or> (65 \<le> c \<and> c \<le> 90) \<or> (97 \<le> c \<and> c \<le> 122)) w"
    and "w \<notin> set [py ''a'', py ''an'', py ''the'', py ''and'']"
  shows "filter (\<lambda>c. \<not> isspace U c)
           (re_sub_words U [py ''and''] False
              (re_sub_words U [py ''a'', py ''an'', py ''the''] False
                 (remove_punctuation U (clean_html w)))) = w"
proof -
  have a: "is_ascii w" using assms(1) by (auto simp: is_ascii_def list_all_iff)
  have "60 \<notin> set w" using assms(1) by (auto simp: list_all_iff)
  then have c: "clean_html w = w" by (rule clean_html_id)
  have r: "remove_punctuation U w = w"
    using assms(1) by (auto simp: remove_punctuation_filter filter_id_conv list_all_iff isalnum_def)
  have ns: "list_all (\<lambda>c. \<not> isspace U c) w"
    using assms(1) by (auto simp: list_all_iff isspace_def)
  have "tidy U w" using tidy_remove_punctuation[OF a, of U] r by simp
  from stop_words_drop[OF this]
  have "filter (\<lambda>c. \<not> isspace U c)
           (re_sub_words U [py ''and''] False
              (re_sub_words U [py ''a'', py ''an'', py ''the''] False
                 (remove_punctuation U (clean_html w))))
        = drop_words U [py ''a'', py ''an'', py ''the'', py ''and''] w"
    by (simp only: c r)
  also have "\<dots> = w"
    using assms(2) split_words_word[where acc="[]" and U=U, OF ns] by (simp add: drop_words_def)
  finally show ?thesis .
qed

lemma normalize_text_small_word:
  assumes "list_all (\<lambda>c. (48 \<le> c \<and> c \<le> 57) \<or> (97 \<le> c \<and> c \<le> 122)) w"
    and "w \<notin> set [py ''a'', py ''an'', py ''the'', py ''and'']"
  shows "normalize_text U w = w"
proof -
  have a: "is_ascii w" using assms(1) by (auto simp: is_ascii_def list_all_iff)
  have "map ascii_lower w = w"
    using assms(1) by (intro map_idI) (auto simp: list_all_iff ascii_lower_def)
  with a have l: "lower U w = w" by (simp add: lower_ascii)
  have u: "unidecode U w = w" using a by (rule unidecode_ascii_id)
  have "list_all (\<lambda>c. (48 \<le> c \<and> c \<le> 57) \<or> (65 \<le> c \<and> c \<le> 90) \<or> (97 \<le> c \<and> c \<le> 122)) w"
    using assms(1) by (auto simp: list_all_iff)
  from word_survives[OF this assms(2), of U] show ?thesis
    by (simp only: normalize_text_filter l u)
qed

lemma normalize_text_one_entry:
  assumes "list_all (\<lambda>c. (48 \<le> c \<and> c \<le> 57) \<or> (65 \<le> c \<and> c \<le> 90) \<or> (97 \<le> c \<and> c \<le> 122)) w"
    and "w \<notin> set [py ''a'', py ''an'', py ''the'', py ''and'']"
  shows "normalize_text (one_entry_db w) [128] = w"
proof -
  have l: "lower (one_entry_db w) [128] = [128]"
    by (simp add: lower_def one_entry_db_def)
  have u: "unidecode (one_entry_db w) [128] = w"
    by (simp add: unidecode_def one_entry_db_def)
  from word_survives[OF assms, of "one_entry_db w"] show ?thesis
    by (simp only: normalize_text_filter l u)
qed

lemma tidy_remove_punctuation_disjoint:
  "alnum_space_disjoint U \<Longrightarrow> tidy U (remove_punctuation U x)"
  unfolding tidy_def list_all_iff remove_punctuation_filter alnum_space_disjoint_def
  by (auto simp: is_word_def isalnum_def isspace_def)

lemma sample_db_disjoint: "alnum_space_disjoint sample_db"
  by (simp add: alnum_space_disjoint_def sample_db_def)


section \<open>The two failures of \<open>clean_doi\<close>\<close>

text \<open>
  Claim C3, as the code has it. \<open>clean_doi\<close> raises one exception class,
  \<open>NoDoiException\<close>, with two messages. It raises it with the message
  \<open>There's no DOI at all.\<close> exactly when the argument is \<open>None\<close> or the empty string. It
  raises it with the message \<open>There's no valid DOI.\<close> exactly when the argument is a
  non-empty string whose cleaned form (non-printing characters removed, stripped,
  lowercased) has no position holding \<open>1\<close>, \<open>0\<close> and one more character that is not a
  newline; an input of white space only is such a string. It raises nothing else.
\<close>

theorem clean_doi_errors:
  "(clean_doi U d = Inl (NoDoiException ''There's no DOI at all.'') \<longleftrightarrow> d = None \<or> d = Some []) \<and>
   (clean_doi U d = Inl (NoDoiException ''There's no valid DOI.'') \<longleftrightarrow>
      (\<exists>s. d = Some s \<and> s \<noteq> [] \<and>
         \<not> (\<exists>pre c rest. cleaned U s = pre @ 49 # 48 # c # rest \<and> c \<noteq> 10))) \<and>
   ((\<exists>e. clean_doi U d = Inl e) \<longleftrightarrow>
      clean_doi U d = Inl (NoDoiException ''There's no DOI at all.'') \<or>
      clean_doi U d = Inl (NoDoiException ''There's no valid DOI.''))"
proof (cases "d = None \<or> d = Some []")
  case True
  then show ?thesis using messages_differ by (auto simp: clean_doi_empty)
next
  case False
  then obtain s where s: "d = Some s" "s \<noteq> []" by (cases d) auto
  show ?thesis
  proof (cases "doi_scan (cleaned U s)")
    case None
    then have "clean_doi U d = Inl (NoDoiException ''There's no valid DOI.'')"
      using s by (simp add: clean_doi_Some)
    moreover from None have "\<not> (\<exists>pre c rest. cleaned U s = pre @ 49 # 48 # c # rest \<and> c \<noteq> 10)"
      using doi_scan_None_iff[of "cleaned U s"] by blast
    ultimately show ?thesis using s messages_differ by auto
  next
    case (Some m)
    then have "clean_doi U d = Inr (takeWhile (\<lambda>x. x \<noteq> 35) m)"
      using s by (simp add: clean_doi_Some)
    moreover from Some have "\<exists>pre c rest. cleaned U s = pre @ 49 # 48 # c # rest \<and> c \<noteq> 10"
      using doi_scan_None_iff[of "cleaned U s"] by auto
    ultimately show ?thesis using s by auto
  qed
qed

text \<open>The theorem at the input \<open>no doi here\<close>: the second message.\<close>

theorem clean_doi_errors_witness:
  "clean_doi sample_db (Some (py ''no doi here'')) = Inl (NoDoiException ''There's no valid DOI.'')"
proof -
  have "doi_scan (cleaned sample_db (py ''no doi here'')) = None" by code_simp
  then have "\<not> (\<exists>pre c rest. cleaned sample_db (py ''no doi here'') = pre @ 49 # 48 # c # rest \<and> c \<noteq> 10)"
    using doi_scan_None_iff[of "cleaned sample_db (py ''no doi here'')"] by blast
  moreover have "py ''no doi here'' \<noteq> []" by (simp add: py_def)
  ultimately show ?thesis
    using clean_doi_errors[of sample_db "Some (py ''no doi here'')"] by blast
qed

text \<open>
  Against the claim as worded: a string of one space gets the second message, not the
  first, and \<open>10x\<close>, which has no \<open>10.\<close> in it, is accepted.
\<close>

theorem clean_doi_errors_counterexample:
  "clean_doi sample_db (Some (py '' '')) = Inl (NoDoiException ''There's no valid DOI.'') \<and>
   clean_doi sample_db (Some (py '' '')) \<noteq> Inl (NoDoiException ''There's no DOI at all.'') \<and>
   clean_doi sample_db (Some (py ''10x'')) = Inr (py ''10x'')"
  by code_simp


section \<open>Cleaning a cleaned DOI again\<close>

text \<open>
  Claim C1, as the code has it. Let \<open>clean_doi\<close> succeed on \<open>x\<close> with a result \<open>r\<close>
  other than the bare \<open>10\<close>, and let \<open>x\<close> be ASCII or, more generally, let the cleaning
  steps leave \<open>r\<close> as it is. Then \<open>clean_doi\<close> succeeds on \<open>r\<close> and returns \<open>r\<close>.
\<close>

theorem clean_doi_idempotent_beyond_10:
  assumes "clean_doi U (Some x) = Inr r"
    and "r \<noteq> py ''10''"
    and "is_ascii x \<or> cleaned U r = r"
  shows "clean_doi U (Some r) = Inr r"
proof -
  from clean_doi_Inr_shape[OF assms(1)] obtain pre u post where
    e: "cleaned U x = pre @ r @ post" "r = 49 # 48 # u" "\<forall>x\<in>set u. x \<noteq> 10 \<and> x \<noteq> 35"
    by blast
  from e(2) assms(2) obtain a u' where u: "u = a # u'" by (cases u) (auto simp: py_def)
  have fixed: "cleaned U r = r"
  proof (cases "is_ascii x")
    case True
    have "\<forall>c\<in>set r. plain c"
    proof
      fix c assume "c \<in> set r"
      with e(1) have "c \<in> set (cleaned U x)" by simp
      with True show "plain c" by (rule cleaned_ascii_plain)
    qed
    then show ?thesis by (rule cleaned_plain_id)
  next
    case False
    with assms(3) show ?thesis by simp
  qed
  have tw: "takeWhile (\<lambda>x. x \<noteq> 10) u = u" "takeWhile (\<lambda>x. x \<noteq> 35) u = u"
    using e(3) by (simp_all add: takeWhile_eq_all_conv[THEN iffD2])
  have "doi_group r = Some r"
    using e(2,3) u tw by (simp add: doi_group_def)
  then have "doi_scan r = Some r" using e(2) by simp
  moreover have "r \<noteq> []" using e(2) by simp
  moreover have "takeWhile (\<lambda>x. x \<noteq> 35) r = r" using e(2) tw by simp
  ultimately show ?thesis using fixed by (simp add: clean_doi_Some)
qed

text \<open>The theorem at the input \<open>https://doi.org/10.1234/ABC\<close>.\<close>

theorem clean_doi_idempotent_beyond_10_witness:
  "clean_doi sample_db (Some (py ''10.1234/abc'')) = Inr (py ''10.1234/abc'')"
proof -
  have e: "clean_doi sample_db (Some (py ''https://doi.org/10.1234/ABC'')) = Inr (py ''10.1234/abc'')"
    by code_simp
  have a: "is_ascii (py ''https://doi.org/10.1234/ABC'')"
    by (simp add: is_ascii_def py_def)
  have n: "py ''10.1234/abc'' \<noteq> py ''10''" by (simp add: py_def)
  from clean_doi_idempotent_beyond_10[OF e n] a show ?thesis by blast
qed

text \<open>
  Against the claim as worded: \<open>clean_doi("10#a")\<close> is \<open>10\<close>, cut at the \<open>#\<close>, and
  \<open>clean_doi("10")\<close> raises, the pattern asking for a character after \<open>10\<close>.
\<close>

theorem clean_doi_idempotent_counterexample:
  "clean_doi sample_db (Some (py ''10#a'')) = Inr (py ''10'') \<and>
   clean_doi sample_db (Some (py ''10'')) = Inl (NoDoiException ''There's no valid DOI.'')"
  by code_simp


section \<open>The shape of a cleaned DOI\<close>

text \<open>
  Claim C2, as the code has it. When \<open>clean_doi\<close> succeeds, the result begins with
  \<open>10\<close> (the next character need not be a dot), holds no \<open>#\<close>, and is a contiguous
  piece of the cleaned input (non-printing characters removed, stripped, lowercased).
  When the input is ASCII, every character of the result is ASCII, is no capital
  letter, is no white space and is of none of the categories C, M and Z. For other
  inputs this is not promised: lowercasing comes after the removal of the non-printing
  characters and can bring a combining mark in. Also
  \<open>clean_doi("https://doi.org/10.1234/ABC")\<close> is \<open>10.1234/abc\<close>.
\<close>

theorem clean_doi_result_shape:
  "(clean_doi U d = Inr r \<longrightarrow>
      take 2 r = py ''10'' \<and> 35 \<notin> set r \<and>
      (\<exists>s pre post. d = Some s \<and> cleaned U s = pre @ r @ post) \<and>
      (\<forall>s. d = Some s \<and> is_ascii s \<longrightarrow>
         (\<forall>c\<in>set r. c < 128 \<and> \<not> (65 \<le> c \<and> c \<le> 90) \<and> \<not> isspace U c \<and>
                     take 1 (category U c) \<notin> set [''C'', ''M'', ''Z'']))) \<and>
   clean_doi U (Some (py ''https://doi.org/10.1234/ABC'')) = Inr (py ''10.1234/abc'')"
proof (intro conjI impI)
  assume a: "clean_doi U d = Inr r"
  from clean_doi_Inr_shape[OF a] obtain s pre u post where
    e: "d = Some s" "cleaned U s = pre @ r @ post" "r = 49 # 48 # u"
       "\<forall>x\<in>set u. x \<noteq> 10 \<and> x \<noteq> 35"
    by blast
  show "take 2 r = py ''10''" using e(3) by (simp add: py_def)
  show "35 \<notin> set r" using e(3,4) by auto
  show "\<exists>s pre post. d = Some s \<and> cleaned U s = pre @ r @ post" using e(1,2) by blast
  show "\<forall>s. d = Some s \<and> is_ascii s \<longrightarrow>
         (\<forall>c\<in>set r. c < 128 \<and> \<not> (65 \<le> c \<and> c \<le> 90) \<and> \<not> isspace U c \<and>
                     take 1 (category U c) \<notin> set [''C'', ''M'', ''Z''])"
  proof (intro allI impI ballI)
    fix s' c assume h: "d = Some s' \<and> is_ascii s'" and c: "c \<in> set r"
    with e(1) have "is_ascii s" by simp
    moreover from c e(2) have "c \<in> set (cleaned U s)" by simp
    ultimately have p: "plain c" by (rule cleaned_ascii_plain)
    from plain_props[OF p, of U] p
    show "c < 128 \<and> \<not> (65 \<le> c \<and> c \<le> 90) \<and> \<not> isspace U c \<and>
                     take 1 (category U c) \<notin> set [''C'', ''M'', ''Z'']"
      by (simp add: plain_def nonprinting_def)
  qed
next
  show "clean_doi U (Some (py ''https://doi.org/10.1234/ABC'')) = Inr (py ''10.1234/abc'')"
    by code_simp
qed

text \<open>The theorem at the input \<open>  10.1000/xyz123#section2 \<close> of the specification.\<close>

theorem clean_doi_result_shape_witness:
  "clean_doi sample_db (Some (py ''  10.1000/xyz123#section2 '')) = Inr (py ''10.1000/xyz123'') \<and>
   take 2 (py ''10.1000/xyz123'') = py ''10'' \<and> 35 \<notin> set (py ''10.1000/xyz123'') \<and>
   list_all (\<lambda>c. \<not> isspace sample_db c) (py ''10.1000/xyz123'')"
proof -
  have e: "clean_doi sample_db (Some (py ''  10.1000/xyz123#section2 '')) = Inr (py ''10.1000/xyz123'')"
    by code_simp
  have a: "is_ascii (py ''  10.1000/xyz123#section2 '')"
    by (simp add: is_ascii_def py_def)
  from clean_doi_result_shape[of sample_db "Some (py ''  10.1000/xyz123#section2 '')" "py ''10.1000/xyz123''"] e a
  show ?thesis unfolding list_all_iff by blast
qed

text \<open>
  Against the claim as worded: the result for \<open>10x\<close> does not begin with \<open>10.\<close>; and
  for \<open>10.\<close> followed by U+0130 the result ends in the combining dot U+0307, a character
  of category \<open>Mn\<close>.
\<close>

theorem clean_doi_result_shape_counterexample:
  "clean_doi sample_db (Some (py ''10x'')) = Inr (py ''10x'') \<and>
   take 3 (py ''10x'') \<noteq> py ''10.'' \<and>
   clean_doi sample_db (Some [49, 48, 46, 304]) = Inr [49, 48, 46, 105, 775] \<and>
   take 1 (category sample_db 775) = ''M''"
  by code_simp


section \<open>The steps of \<open>normalize_simple\<close>\<close>

text \<open>
  Claim C4, as the code has it. \<open>normalize_simple\<close> lowercases, removes every character
  that is neither alphanumeric nor white space, removes the whole words \<open>a\<close>, \<open>an\<close>
  and \<open>the\<close>, and then deletes all white space. It does not transliterate, strips no
  HTML tags (only their punctuation goes), leaves the word \<open>and\<close>, and keeps no
  spaces. Every character of its result is alphanumeric and no white space. For every
  text, ASCII or not (no code point being both alphanumeric and white space, as in
  Unicode), the result is the words of the lowercased text without punctuation, less the
  three articles, joined with nothing between them. \<open>normalize_simple("The Cat  and Dog")\<close>
  is \<open>catanddog\<close> and \<open>normalize_simple("<b>x</b>")\<close> is \<open>bxb\<close>.
\<close>

theorem normalize_simple_steps:
  "(\<forall>c\<in>set (normalize_simple U t). isalnum U c \<and> \<not> isspace U c) \<and>
   (is_ascii t \<or> alnum_space_disjoint U \<longrightarrow>
      normalize_simple U t =
        drop_words U [py ''a'', py ''an'', py ''the''] (remove_punctuation U (lower U t))) \<and>
   normalize_simple U (py ''The Cat  and Dog'') = py ''catanddog'' \<and>
   normalize_simple U (py ''<b>x</b>'') = py ''bxb''"
proof (intro conjI impI)
  show "\<forall>c\<in>set (normalize_simple U t). isalnum U c \<and> \<not> isspace U c"
    using set_normalize_simple[of U t] by blast
next
  assume h: "is_ascii t \<or> alnum_space_disjoint U"
  have "tidy U (remove_punctuation U (lower U t))"
  proof (cases "is_ascii t")
    case True
    then show ?thesis by (intro tidy_remove_punctuation is_ascii_lower)
  next
    case False
    with h show ?thesis by (simp add: tidy_remove_punctuation_disjoint)
  qed
  from articles_drop[OF this]
  show "normalize_simple U t =
        drop_words U [py ''a'', py ''an'', py ''the''] (remove_punctuation U (lower U t))"
    by (simp only: normalize_simple_filter)
next
  show "normalize_simple U (py ''The Cat  and Dog'') = py ''catanddog''" by code_simp
next
  show "normalize_simple U (py ''<b>x</b>'') = py ''bxb''" by code_simp
qed

text \<open>
  The theorem at the text \<open>An <i>Owl</i> & the cat\<close> and at the text made of \<open>the\<close>,
  a space and U+5317, which is not transliterated.
\<close>

theorem normalize_simple_steps_witness:
  "normalize_simple sample_db (py ''An <i>Owl</i> & the cat'') = py ''iowlicat'' \<and>
   list_all (\<lambda>c. isalnum sample_db c \<and> \<not> isspace sample_db c)
     (normalize_simple sample_db (py ''An <i>Owl</i> & the cat'')) \<and>
   normalize_simple sample_db [116, 104, 101, 32, 21271] = [21271]"
proof -
  have a: "is_ascii (py ''An <i>Owl</i> & the cat'')" by (simp add: is_ascii_def py_def)
  have d: "drop_words sample_db [py ''a'', py ''an'', py ''the'']
             (remove_punctuation sample_db (lower sample_db (py ''An <i>Owl</i> & the cat'')))
           = py ''iowlicat''"
    by code_simp
  have l: "lower sample_db [116, 104, 101, 32, 21271] = [116, 104, 101, 32, 21271]"
    by (simp add: lower_def sample_db_def ascii_lower_def upt_rec)
  have r: "remove_punctuation sample_db [116, 104, 101, 32, 21271] = [116, 104, 101, 32, 21271]"
    by (simp add: remove_punctuation_def isalnum_def isspace_def sample_db_def)
  have w: "drop_words sample_db [py ''a'', py ''an'', py ''the''] [116, 104, 101, 32, 21271] = [21271]"
    by (simp add: drop_words_def isspace_def sample_db_def py_def)
  from normalize_simple_steps[of sample_db "py ''An <i>Owl</i> & the cat''"] a d
  have 1: "normalize_simple sample_db (py ''An <i>Owl</i> & the cat'') = py ''iowlicat''"
    and 2: "\<forall>c\<in>set (normalize_simple sample_db (py ''An <i>Owl</i> & the cat'')).
              isalnum sample_db c \<and> \<not> isspace sample_db c"
    by simp_all
  from normalize_simple_steps[of sample_db "[116, 104, 101, 32, 21271]"] sample_db_disjoint
  have 3: "normalize_simple sample_db [116, 104, 101, 32, 21271] = [21271]"
    by (simp only: l r w) simp
  from 1 2 3 show ?thesis unfolding list_all_iff by blast
qed

text \<open>
  Against the claim as worded: for \<open>The Cat  and Dog\<close> the result holds no space and
  keeps \<open>and\<close>, and the letters of a tag stay.
\<close>

theorem normalize_simple_counterexample:
  "normalize_simple sample_db (py ''The Cat  and Dog'') = py ''catanddog'' \<and>
   normalize_simple sample_db (py ''The Cat  and Dog'') \<noteq> py ''cat dog'' \<and>
   32 \<notin> set (normalize_simple sample_db (py ''The Cat  and Dog'')) \<and>
   normalize_simple sample_db (py ''<b>x</b>'') = py ''bxb''"
  by code_simp


section \<open>White space and capital letters in a normalised text\<close>

text \<open>
  Claim C5, as the code has it. For every text \<open>t\<close>, \<open>normalize(t)\<close> holds no white
  space, and every character of it is a character of the transliteration of the
  lowercased text. It holds no capital ASCII letter when \<open>t\<close> is ASCII. For other texts
  this is not promised: the text is lowercased before it is transliterated, so a
  capital letter that \<open>unidecode\<close> writes stays.
\<close>

theorem normalize_text_no_space:
  "(\<forall>c\<in>set (normalize_text U t). \<not> isspace U c) \<and>
   set (normalize_text U t) \<subseteq> set (unidecode U (lower U t)) \<and>
   (is_ascii t \<longrightarrow> (\<forall>c\<in>set (normalize_text U t). \<not> (65 \<le> c \<and> c \<le> 90)))"
proof (intro conjI impI)
  show "\<forall>c\<in>set (normalize_text U t). \<not> isspace U c"
    using set_normalize_text[of U t] by blast
  show sub: "set (normalize_text U t) \<subseteq> set (unidecode U (lower U t))"
    using set_normalize_text[of U t] by blast
  assume a: "is_ascii t"
  then have "unidecode U (lower U t) = lower U t"
    by (simp add: unidecode_ascii_id is_ascii_lower)
  with sub a show "\<forall>c\<in>set (normalize_text U t). \<not> (65 \<le> c \<and> c \<le> 90)"
    using lower_ascii_no_upper[of t _ U] by auto
qed

text \<open>The theorem at the text \<open>The Quick, Brown Fox!\<close>.\<close>

theorem normalize_text_no_space_witness:
  "normalize_text sample_db (py ''The Quick, Brown Fox!'') = py ''quickbrownfox'' \<and>
   list_all (\<lambda>c. \<not> isspace sample_db c) (normalize_text sample_db (py ''The Quick, Brown Fox!'')) \<and>
   list_all (\<lambda>c. \<not> (65 \<le> c \<and> c \<le> 90)) (normalize_text sample_db (py ''The Quick, Brown Fox!''))"
proof -
  have a: "is_ascii (py ''The Quick, Brown Fox!'')" by (simp add: is_ascii_def py_def)
  have e: "normalize_text sample_db (py ''The Quick, Brown Fox!'') = py ''quickbrownfox''"
    by code_simp
  from normalize_text_no_space[of sample_db "py ''The Quick, Brown Fox!''"] a e
  show ?thesis unfolding list_all_iff by blast
qed

text \<open>
  Against the claim as worded: U+5317 has no lowercase form and \<open>unidecode\<close> writes it
  \<open>Bei\<close> and a space, so the normalised text begins with a capital \<open>B\<close>.
\<close>

theorem normalize_text_upper_counterexample:
  "normalize_text sample_db [21271] = py ''Bei'' \<and>
   list_ex (\<lambda>c. 65 \<le> c \<and> c \<le> 90) (normalize_text sample_db [21271])"
proof -
  have 1: "lower sample_db [21271] = [21271]"
    by (simp add: lower_def sample_db_def)
  have 2: "unidecode sample_db [21271] = py ''Bei ''"
    by (simp add: unidecode_def sample_db_def)
  have 3: "re_sub_spaces sample_db
             (re_sub_words sample_db [py ''and''] False
                (re_sub_words sample_db [py ''a'', py ''an'', py ''the''] False
                   (remove_punctuation sample_db (clean_html (py ''Bei ''))))) = py ''Bei''"
    by code_simp
  have e: "normalize_text sample_db [21271] = py ''Bei''"
    by (simp only: normalize_text_def Let_def 1 2 3)
  have "list_ex (\<lambda>c. 65 \<le> c \<and> c \<le> 90) (py ''Bei'')"
    by (simp add: py_def)
  with e show ?thesis by simp
qed


section \<open>What \<open>is_doi_url\<close> accepts\<close>





section \<open>Normalisation never fails\<close>

text \<open>
  Claim C7. \<open>normalize_text\<close> is a function on all strings: each of its steps is a total
  function, the scans of the regular expressions being recursions shown to terminate, and
  none has an error result. The empty text gives the empty text; so does every text that
  the cleaning steps (lowercase, transliteration, tag and punctuation removal) reduce to
  white space or to nothing, and a text of stop words only. The result is never longer
  than the transliterated text.
\<close>

theorem normalize_text_total:
  "normalize_text U [] = [] \<and>
   (list_all (isspace U) (remove_punctuation U (clean_html (unidecode U (lower U t))))
      \<longrightarrow> normalize_text U t = []) \<and>
   length (normalize_text U t) \<le> length (unidecode U (lower U t)) \<and>
   normalize_text U (py ''The <b>and</b> a!'') = []"
proof (intro conjI impI)
  show "normalize_text U [] = []"
    by (simp add: normalize_text_def lower_def unidecode_def remove_punctuation_def)
next
  let ?p = "remove_punctuation U (clean_html (unidecode U (lower U t)))"
  assume a: "list_all (isspace U) ?p"
  have "set (re_sub_words U [py ''and''] False (re_sub_words U [py ''a'', py ''an'', py ''the''] False ?p))
          \<subseteq> set ?p"
    using set_re_sub_words[of U "[py ''and'']" False "re_sub_words U [py ''a'', py ''an'', py ''the''] False ?p"]
          set_re_sub_words[of U "[py ''a'', py ''an'', py ''the'']" False ?p]
    by blast
  with a show "normalize_text U t = []"
    unfolding normalize_text_filter list_all_iff by (auto simp: filter_empty_conv)
next
  let ?u = "unidecode U (lower U t)"
  let ?p = "remove_punctuation U (clean_html ?u)"
  let ?q = "re_sub_words U [py ''a'', py ''an'', py ''the''] False ?p"
  have "length (normalize_text U t) \<le> length (re_sub_words U [py ''and''] False ?q)"
    unfolding normalize_text_filter by (rule length_filter_le)
  also have "\<dots> \<le> length ?q" by (rule length_re_sub_words)
  also have "\<dots> \<le> length ?p" by (rule length_re_sub_words)
  also have "\<dots> \<le> length (clean_html ?u)" by (simp add: remove_punctuation_filter)
  also have "\<dots> \<le> length ?u" by (rule length_clean_html)
  finally show "length (normalize_text U t) \<le> length ?u" .
next
  show "normalize_text U (py ''The <b>and</b> a!'') = []" by code_simp
qed

text \<open>The theorem at the text \<open><p> ?! </p>\<close>, which the cleaning reduces to white space.\<close>

theorem normalize_text_total_witness:
  "normalize_text sample_db (py ''<p> ?! </p>'') = []"
proof -
  have "list_all (isspace sample_db)
          (remove_punctuation sample_db (clean_html (unidecode sample_db (lower sample_db (py ''<p> ?! </p>'')))))"
    by code_simp
  with normalize_text_total[of sample_db "py ''<p> ?! </p>''"] show ?thesis by blast
qed


section \<open>What \<open>clean_doi\<close> extracts\<close>

text \<open>
  Claim C8, as the code has it. Let the cleaned form of a non-empty input (non-printing
  characters removed, stripped, lowercased) hold no newline, and let it hold \<open>1\<close>, \<open>0\<close>
  and one more character \<open>c\<close>, at a position before which there is no other such
  occurrence. Then \<open>clean_doi\<close> drops what precedes that position, takes all of the rest,
  whatever it is, and cuts it at the first \<open>#\<close>. The character after \<open>10\<close> need not
  be a dot.
\<close>

theorem clean_doi_first_occurrence:
  assumes "s \<noteq> []"
    and "cleaned U s = pre @ 49 # 48 # c # rest"
    and "\<forall>pre' c' rest'. cleaned U s = pre' @ 49 # 48 # c' # rest' \<longrightarrow> length pre \<le> length pre'"
    and "10 \<notin> set (cleaned U s)"
  shows "clean_doi U (Some s) = Inr (takeWhile (\<lambda>x. x \<noteq> 35) (49 # 48 # c # rest))"
proof -
  from assms(2,4) have c: "c \<noteq> 10" and nl: "10 \<notin> set rest" by auto
  with assms(2) have "doi_scan (cleaned U s) \<noteq> None"
    using doi_scan_None_iff[of "cleaned U s"] by blast
  then obtain g where g: "doi_scan (cleaned U s) = Some g" by auto
  from doi_scan_Some[OF g] obtain p2 d r2 where
    e: "cleaned U s = p2 @ 49 # 48 # d # r2" "d \<noteq> 10"
       "g = 49 # 48 # takeWhile (\<lambda>x. x \<noteq> 10) (d # r2)" "doi_scan (p2 @ [49, 48]) = None"
    by blast
  from assms(3) e(1) have le: "length pre \<le> length p2" by blast
  have "\<not> length pre < length p2"
  proof
    assume lt: "length pre < length p2"
    have "p2 @ [49, 48] = take (length p2 + 2) (cleaned U s)"
      using e(1) by simp
    also have "\<dots> = pre @ 49 # 48 # c # take (length p2 - length pre - 1) rest"
      using lt assms(2) by (simp add: take_Cons')
    finally have "\<exists>pre' d' rest'. p2 @ [49, 48] = pre' @ 49 # 48 # d' # rest' \<and> d' \<noteq> 10"
      using c by blast
    with e(4) show False
      using doi_scan_None_iff[of "p2 @ [49, 48]"] by blast
  qed
  with le have "length pre = length p2" by simp
  with assms(2) e(1) have "pre = p2" "d = c" "r2 = rest" by auto
  moreover from nl have "takeWhile (\<lambda>x. x \<noteq> 10) rest = rest"
    by (induction rest) auto
  ultimately have "g = 49 # 48 # c # rest" using e(3) c by simp
  with g assms(1) show ?thesis by (simp add: clean_doi_Some)
qed

text \<open>The theorem at the input \<open>x10.1#f\<close>.\<close>

theorem clean_doi_first_occurrence_witness:
  "clean_doi sample_db (Some (py ''x10.1#f'')) = Inr (py ''10.1'')"
proof -
  have c: "cleaned sample_db (py ''x10.1#f'') = [120] @ 49 # 48 # 46 # [49, 35, 102]"
    by code_simp
  have n: "py ''x10.1#f'' \<noteq> []" by (simp add: py_def)
  have nl: "10 \<notin> set (cleaned sample_db (py ''x10.1#f''))"
    by (simp only: c) simp
  have first: "\<forall>pre' c' rest'. cleaned sample_db (py ''x10.1#f'') = pre' @ 49 # 48 # c' # rest'
      \<longrightarrow> length [120::nat] \<le> length pre'"
    by (simp only: c) (auto simp: Cons_eq_append_conv)
  show ?thesis
    using clean_doi_first_occurrence[OF n c first nl] by (simp add: py_def)
qed

text \<open>
  Against the claim as worded, with \<open>10.\<close> read as the three characters: the cleaned
  form of \<open>10a10.5\<close> holds \<open>10.\<close> followed by a character, and what precedes its first
  occurrence is not dropped.
\<close>

theorem clean_doi_first_occurrence_counterexample:
  "cleaned sample_db (py ''10a10.5'') = py ''10a'' @ py ''10.5'' \<and>
   clean_doi sample_db (Some (py ''10a10.5'')) = Inr (py ''10a10.5'') \<and>
   clean_doi sample_db (Some (py ''10a10.5'')) \<noteq> Inr (py ''10.5'')"
  by code_simp


section \<open>Stop words are removed as whole words only\<close>

text \<open>
  Claim C9. Let the transliterated text be ASCII (the table of \<open>unidecode\<close> holds ASCII
  strings, or the text is ASCII). Then \<open>normalize(t)\<close> is what a tokenizer gives: the
  text after lowercasing, transliteration, tag and punctuation removal is cut at its
  white space, the words equal to \<open>a\<close>, \<open>an\<close>, \<open>the\<close> or \<open>and\<close> are dropped, and
  the other words are joined unchanged. So a word of small letters and digits that is
  not one of the four, such as \<open>sand\<close>, is returned whole, whatever it contains.
\<close>

theorem normalize_text_whole_words:
  "(unidecode_is_ascii U \<or> is_ascii t \<longrightarrow>
      normalize_text U t =
        drop_words U [py ''a'', py ''an'', py ''the'', py ''and'']
          (remove_punctuation U (clean_html (unidecode U (lower U t))))) \<and>
   (list_all (\<lambda>c. (48 \<le> c \<and> c \<le> 57) \<or> (97 \<le> c \<and> c \<le> 122)) w \<and>
    w \<notin> set [py ''a'', py ''an'', py ''the'', py ''and''] \<longrightarrow> normalize_text U w = w) \<and>
   normalize_text U (py ''sand'') = py ''sand''"
proof (intro conjI impI)
  assume h: "unidecode_is_ascii U \<or> is_ascii t"
  have "is_ascii (unidecode U (lower U t))"
  proof (cases "is_ascii t")
    case True
    then show ?thesis by (simp add: unidecode_ascii_id is_ascii_lower)
  next
    case False
    with h show ?thesis by (simp add: is_ascii_unidecode)
  qed
  then have "is_ascii (clean_html (unidecode U (lower U t)))"
    using set_clean_html[of "unidecode U (lower U t)"] by (auto simp: is_ascii_def list_all_iff)
  then have "tidy U (remove_punctuation U (clean_html (unidecode U (lower U t))))"
    by (rule tidy_remove_punctuation)
  from stop_words_drop[OF this]
  show "normalize_text U t =
        drop_words U [py ''a'', py ''an'', py ''the'', py ''and'']
          (remove_punctuation U (clean_html (unidecode U (lower U t))))"
    by (simp only: normalize_text_filter)
next
  assume h: "list_all (\<lambda>c. (48 \<le> c \<and> c \<le> 57) \<or> (97 \<le> c \<and> c \<le> 122)) w \<and>
    w \<notin> set [py ''a'', py ''an'', py ''the'', py ''and'']"
  then show "normalize_text U w = w"
    using normalize_text_small_word[of w U] by blast
next
  show "normalize_text U (py ''sand'') = py ''sand''" by code_simp
qed

text \<open>
  The theorem at the word \<open>thesaurus\<close> and at the text \<open>The sand and the Sandy an\<close>.
\<close>

theorem normalize_text_whole_words_witness:
  "normalize_text sample_db (py ''thesaurus'') = py ''thesaurus'' \<and>
   normalize_text sample_db (py ''The sand and the Sandy an'') = py ''sandsandy''"
proof -
  have l: "list_all (\<lambda>c. (48 \<le> c \<and> c \<le> 57) \<or> (97 \<le> c \<and> c \<le> 122)) (py ''thesaurus'')"
    by (simp add: py_def)
  have n: "py ''thesaurus'' \<notin> set [py ''a'', py ''an'', py ''the'', py ''and'']"
    by (simp add: py_def)
  have a: "is_ascii (py ''The sand and the Sandy an'')" by (simp add: is_ascii_def py_def)
  have d: "drop_words sample_db [py ''a'', py ''an'', py ''the'', py ''and'']
          (remove_punctuation sample_db (clean_html (unidecode sample_db
             (lower sample_db (py ''The sand and the Sandy an''))))) = py ''sandsandy''"
    by code_simp
  from normalize_text_whole_words[of sample_db "py ''The sand and the Sandy an''" "py ''thesaurus''"] l n a d
  show ?thesis by simp
qed


section \<open>The alphabet of a normalised text\<close>

text \<open>
  Claim C10. Let every entry of the table of \<open>unidecode\<close> be an ASCII string, as the
  library promises. Then for every text \<open>t\<close>, every character of \<open>normalize(t)\<close> is an
  ASCII digit or an ASCII letter, capital or small. Each of these characters occurs in
  some normalised text: a digit or a small letter \<open>c\<close> in that of the text \<open>cc\<close>, and a
  capital letter in that of a character that a table of ASCII entries transliterates
  to it.
\<close>

theorem normalize_text_alphabet:
  "(unidecode_is_ascii U \<longrightarrow>
      (\<forall>c\<in>set (normalize_text U t).
          (48 \<le> c \<and> c \<le> 57) \<or> (65 \<le> c \<and> c \<le> 90) \<or> (97 \<le> c \<and> c \<le> 122))) \<and>
   ((48 \<le> d \<and> d \<le> 57) \<or> (97 \<le> d \<and> d \<le> 122) \<longrightarrow> d \<in> set (normalize_text U [d, d])) \<and>
   (65 \<le> e \<and> e \<le> 90 \<longrightarrow>
      unidecode_is_ascii (one_entry_db [e, e]) \<and> e \<in> set (normalize_text (one_entry_db [e, e]) [128]))"
proof (intro conjI impI ballI)
  fix c assume a: "unidecode_is_ascii U" and "c \<in> set (normalize_text U t)"
  with set_normalize_text[of U t]
  have c: "c \<in> set (unidecode U (lower U t))" "isalnum U c" by auto
  from is_ascii_unidecode[OF a, of "lower U t"] c(1) have "c < 128"
    by (auto simp: is_ascii_def list_all_iff)
  with c(2) show "(48 \<le> c \<and> c \<le> 57) \<or> (65 \<le> c \<and> c \<le> 90) \<or> (97 \<le> c \<and> c \<le> 122)"
    by (simp add: isalnum_def)
next
  assume d: "(48 \<le> d \<and> d \<le> 57) \<or> (97 \<le> d \<and> d \<le> 122)"
  then have "list_all (\<lambda>c. (48 \<le> c \<and> c \<le> 57) \<or> (97 \<le> c \<and> c \<le> 122)) [d, d]" by simp
  moreover have "[d, d] \<notin> set [py ''a'', py ''an'', py ''the'', py ''and'']"
    by (auto simp: py_def)
  ultimately have "normalize_text U [d, d] = [d, d]" by (rule normalize_text_small_word)
  then show "d \<in> set (normalize_text U [d, d])" by simp
next
  assume e: "65 \<le> e \<and> e \<le> 90"
  then show "unidecode_is_ascii (one_entry_db [e, e])"
    by (simp add: unidecode_is_ascii_def one_entry_db_def is_ascii_def)
  from e have "list_all (\<lambda>c. (48 \<le> c \<and> c \<le> 57) \<or> (65 \<le> c \<and> c \<le> 90) \<or> (97 \<le> c \<and> c \<le> 122)) [e, e]"
    by simp
  moreover have "[e, e] \<notin> set [py ''a'', py ''an'', py ''the'', py ''and'']"
    by (auto simp: py_def)
  ultimately have "normalize_text (one_entry_db [e, e]) [128] = [e, e]"
    by (rule normalize_text_one_entry)
  then show "e \<in> set (normalize_text (one_entry_db [e, e]) [128])" by simp
qed

text \<open>
  The theorem at the sample table and the text made of U+0130, a space, \<open>!\<close> and \<open>7\<close>,
  and at the characters \<open>7\<close> and \<open>Q\<close>.
\<close>

theorem normalize_text_alphabet_witness:
  "normalize_text sample_db [304, 32, 33, 55] = py ''i7'' \<and>
   list_all (\<lambda>c. (48 \<le> c \<and> c \<le> 57) \<or> (65 \<le> c \<and> c \<le> 90) \<or> (97 \<le> c \<and> c \<le> 122))
     (normalize_text sample_db [304, 32, 33, 55]) \<and>
   55 \<in> set (normalize_text sample_db [55, 55]) \<and>
   81 \<in> set (normalize_text (one_entry_db [81, 81]) [128])"
proof -
  have e: "normalize_text sample_db [304, 32, 33, 55] = py ''i7''" by code_simp
  from normalize_text_alphabet[of sample_db "[304, 32, 33, 55]" 55 81]
    sample_db_unidecode_is_ascii e
  show ?thesis unfolding list_all_iff by simp
qed


end
